theory Spec2Isabelle
  imports Main "HOL-Library.AList"
begin

section \<open>JavaScript strings\<close>

text \<open>
  A JavaScript string is modelled as a \<^typ>\<open>string\<close>: a list of code units, here the
  code units \<open>0x00 .. 0xFF\<close>.  The character tables below are the ECMAScript ones
  restricted to that range.
\<close>

definition code_unit :: "char \<Rightarrow> nat" where
  "code_unit c = of_char c"

text \<open>\<open>LineTerminator\<close>: line feed and carriage return.\<close>

definition line_terminator :: "char \<Rightarrow> bool" where
  "line_terminator c = (c = CHR 0x0A \<or> c = CHR 0x0D)"

text \<open>The characters of the class \<open>\s\<close>: tab, line feed, vertical tab, form feed,
  carriage return, space and no-break space.\<close>

definition white_space :: "char list" where
  "white_space = [CHR 0x09, CHR 0x0A, CHR 0x0B, CHR 0x0C, CHR 0x0D, CHR 0x20, CHR 0xA0]"

text \<open>\<open>String.prototype.toLowerCase\<close> and \<open>toUpperCase\<close> on one code unit.  The
  upper-case forms of \<open>0xB5\<close>, \<open>0xDF\<close> and \<open>0xFF\<close> lie outside the range (or are
  two code units), so these three are left alone, as \<open>Canonicalize\<close> does for a
  pattern compiled with the flag \<open>i\<close>.\<close>

definition to_lower :: "char \<Rightarrow> char" where
  "to_lower c =
     (if (0x41 \<le> code_unit c \<and> code_unit c \<le> 0x5A) \<or> (0xC0 \<le> code_unit c \<and> code_unit c \<le> 0xDE \<and> code_unit c \<noteq> 0xD7)
      then char_of (code_unit c + 32) else c)"

definition to_upper :: "char \<Rightarrow> char" where
  "to_upper c =
     (if (0x61 \<le> code_unit c \<and> code_unit c \<le> 0x7A) \<or> (0xE0 \<le> code_unit c \<and> code_unit c \<le> 0xFE \<and> code_unit c \<noteq> 0xF7)
      then char_of (code_unit c - 32) else c)"

definition toLowerCase :: "string \<Rightarrow> string" where
  "toLowerCase s = map to_lower s"

section \<open>Regular expressions\<close>

text \<open>
  The patterns of the program are values of \<open>rx\<close>; \<open>rx_match\<close> is the ECMAScript
  backtracking matcher, written as a function from a matcher state to the list of
  the states in which a match of the pattern can end, in the order in which
  backtracking tries them.  The head of the list is the match the program sees.
\<close>

datatype rx =
    Eps
  | Chr char
  | Cls bool "char list"
  | Dot
  | Bol
  | Eol
  | Seq rx rx
  | Alt rx rx
  | Star rx
  | LazyStar rx
  | Opt rx
  | Grp nat rx
  | Ref nat
  | NotAhead rx

text \<open>A matcher state: the code unit before the current position (\<open>None\<close> at the
  start of the input), the input from the current position on, and the captures.\<close>

datatype mstate = MState (before: "char option") (rest: string) (caps: "(nat \<times> string) list")

definition char_eq :: "bool \<Rightarrow> char \<Rightarrow> char \<Rightarrow> bool" where
  "char_eq ic a b = (if ic then to_upper a = to_upper b else a = b)"

definition in_class :: "bool \<Rightarrow> bool \<Rightarrow> char list \<Rightarrow> char \<Rightarrow> bool" where
  "in_class ic neg cs x = (list_ex (\<lambda>a. char_eq ic a x) cs \<noteq> neg)"

definition one_char :: "(char \<Rightarrow> bool) \<Rightarrow> mstate \<Rightarrow> mstate list" where
  "one_char p st = (case rest st of [] \<Rightarrow> [] | x # xs \<Rightarrow> if p x then [MState (Some x) xs (caps st)] else [])"

definition progress :: "mstate \<Rightarrow> mstate \<Rightarrow> bool" where
  "progress st st' = (length (rest st') < length (rest st))"

text \<open>Repetition.  An iteration that consumes nothing is rejected, so the number of
  iterations is bounded by the length of the remaining input, the first argument.\<close>

fun rep_greedy :: "nat \<Rightarrow> (mstate \<Rightarrow> mstate list) \<Rightarrow> mstate \<Rightarrow> mstate list" where
  "rep_greedy 0 f st = [st]"
| "rep_greedy (Suc n) f st = concat (map (rep_greedy n f) (filter (progress st) (f st))) @ [st]"

fun rep_lazy :: "nat \<Rightarrow> (mstate \<Rightarrow> mstate list) \<Rightarrow> mstate \<Rightarrow> mstate list" where
  "rep_lazy 0 f st = [st]"
| "rep_lazy (Suc n) f st = st # concat (map (rep_lazy n f) (filter (progress st) (f st)))"

definition consumed :: "mstate \<Rightarrow> mstate \<Rightarrow> string" where
  "consumed st st' = take (length (rest st) - length (rest st')) (rest st)"

definition capture :: "nat \<Rightarrow> mstate \<Rightarrow> mstate \<Rightarrow> mstate" where
  "capture k st st' = MState (before st') (rest st') ((k, consumed st st') # caps st')"

definition backref :: "bool \<Rightarrow> string \<Rightarrow> mstate \<Rightarrow> mstate list" where
  "backref ic s st =
     (if s = [] then [st]
      else if length s \<le> length (rest st) \<and> list_all2 (char_eq ic) s (take (length s) (rest st))
      then [MState (Some (last (take (length s) (rest st)))) (drop (length s) (rest st)) (caps st)]
      else [])"

primrec rx_match :: "bool \<Rightarrow> bool \<Rightarrow> rx \<Rightarrow> mstate \<Rightarrow> mstate list" where
  "rx_match ic ml Eps st = [st]"
| "rx_match ic ml (Chr c) st = one_char (char_eq ic c) st"
| "rx_match ic ml (Cls neg cs) st = one_char (in_class ic neg cs) st"
| "rx_match ic ml Dot st = one_char (\<lambda>x. \<not> line_terminator x) st"
| "rx_match ic ml Bol st =
     (case before st of None \<Rightarrow> [st] | Some p \<Rightarrow> if ml \<and> line_terminator p then [st] else [])"
| "rx_match ic ml Eol st =
     (case rest st of [] \<Rightarrow> [st] | x # xs \<Rightarrow> if ml \<and> line_terminator x then [st] else [])"
| "rx_match ic ml (Seq a b) st = concat (map (rx_match ic ml b) (rx_match ic ml a st))"
| "rx_match ic ml (Alt a b) st = rx_match ic ml a st @ rx_match ic ml b st"
| "rx_match ic ml (Star a) st = rep_greedy (length (rest st)) (rx_match ic ml a) st"
| "rx_match ic ml (LazyStar a) st = rep_lazy (length (rest st)) (rx_match ic ml a) st"
| "rx_match ic ml (Opt a) st = filter (progress st) (rx_match ic ml a st) @ [st]"
| "rx_match ic ml (Grp k a) st = map (capture k st) (rx_match ic ml a st)"
| "rx_match ic ml (Ref k) st =
     (case map_of (caps st) k of None \<Rightarrow> [st] | Some s \<Rightarrow> backref ic s st)"
| "rx_match ic ml (NotAhead a) st = (if rx_match ic ml a st = [] then [st] else [])"

text \<open>Pattern abbreviations: a literal string, \<open>a+\<close> and \<open>a{3,}\<close>.\<close>

definition lit :: "string \<Rightarrow> rx" where
  "lit s = foldr (\<lambda>c r. Seq (Chr c) r) s Eps"

definition Plus :: "rx \<Rightarrow> rx" where
  "Plus a = Seq a (Star a)"

definition AtLeast3 :: "rx \<Rightarrow> rx" where
  "AtLeast3 a = Seq a (Seq a (Seq a (Star a)))"

definition seqs :: "rx list \<Rightarrow> rx" where
  "seqs rs = foldr Seq rs Eps"

text \<open>A \<open>RegExp\<close> object: the pattern and the flags \<open>i\<close>, \<open>m\<close> and \<open>g\<close>.\<close>

datatype regexp = RegExp (pattern: rx) (ignoreCase: bool) (multiline: bool) (global: bool)

text \<open>The match of a regular expression that starts at the current position:
  the number of code units it consumes, and its captures.\<close>

definition match_here :: "regexp \<Rightarrow> char option \<Rightarrow> string \<Rightarrow> (nat \<times> (nat \<times> string) list) option" where
  "match_here re prev s =
     (case rx_match (ignoreCase re) (multiline re) (pattern re) (MState prev s []) of
        [] \<Rightarrow> None
      | st # _ \<Rightarrow> Some (length s - length (rest st), caps st))"

text \<open>\<open>RegExp.prototype.test\<close> of a regular expression without the flag \<open>g\<close>: is there
  a match starting at some position of the string (the end included)?\<close>

fun search :: "regexp \<Rightarrow> char option \<Rightarrow> string \<Rightarrow> bool" where
  "search re prev [] = (match_here re prev [] \<noteq> None)"
| "search re prev (c # s) = (match_here re prev (c # s) \<noteq> None \<or> search re (Some c) s)"

definition js_test :: "regexp \<Rightarrow> string \<Rightarrow> bool" where
  "js_test re s = search re None s"

text \<open>
  \<open>String.prototype.replace\<close>.  The replacement is a function of the matched
  substring and the captures (the replacement patterns \<open>$&\<close> and \<open>$1\<close> of the source
  are written out at each use).  With the flag \<open>g\<close> every match is replaced, the search
  resuming where the last match ended, one code unit further on after an empty match;
  without it the first match only.
\<close>

lemma match_here_le: "match_here re prev s = Some (n, cs) \<Longrightarrow> n \<le> length s"
  by (auto simp: match_here_def split: list.splits)

function replace_all ::
  "regexp \<Rightarrow> (string \<Rightarrow> (nat \<times> string) list \<Rightarrow> string) \<Rightarrow> char option \<Rightarrow> string \<Rightarrow> string" where
  "replace_all re f prev s =
     (case match_here re prev s of
        None \<Rightarrow> (case s of [] \<Rightarrow> [] | c # t \<Rightarrow> c # replace_all re f (Some c) t)
      | Some (n, cs) \<Rightarrow>
          if 0 < n then f (take n s) cs @ replace_all re f (Some (last (take n s))) (drop n s)
          else f [] cs @ (case s of [] \<Rightarrow> [] | c # t \<Rightarrow> c # replace_all re f (Some c) t))"
  by pat_completeness auto
termination
proof (relation "measure (\<lambda>(re, f, prev, s). length s)", goal_cases)
  case 1
  show ?case by simp
next
  case (2 re f prev s c t)
  then show ?case by simp
next
  case (3 re f prev s x n cs)
  then have "n \<le> length s" using match_here_le by metis
  with 3 show ?case by simp
next
  case (4 re f prev s x n cs c t)
  then show ?case by simp
qed

declare replace_all.simps [simp del]

fun replace_first ::
  "regexp \<Rightarrow> (string \<Rightarrow> (nat \<times> string) list \<Rightarrow> string) \<Rightarrow> char option \<Rightarrow> string \<Rightarrow> string" where
  "replace_first re f prev [] =
     (case match_here re prev [] of None \<Rightarrow> [] | Some (n, cs) \<Rightarrow> f [] cs)"
| "replace_first re f prev (c # t) =
     (case match_here re prev (c # t) of
        None \<Rightarrow> c # replace_first re f (Some c) t
      | Some (n, cs) \<Rightarrow> f (take n (c # t)) cs @ drop n (c # t))"

definition js_replace :: "regexp \<Rightarrow> (string \<Rightarrow> (nat \<times> string) list \<Rightarrow> string) \<Rightarrow> string \<Rightarrow> string" where
  "js_replace re f s = (if global re then replace_all re f None s else replace_first re f None s)"

text \<open>
  \<open>String.prototype.split\<close> with a regular expression (one without capture groups, whose
  captures the result would otherwise include) as separator.  \<open>field\<close> is the text
  since the end of the last separator; a match that ends where the field began is
  skipped.
\<close>

function split_from :: "regexp \<Rightarrow> string \<Rightarrow> char option \<Rightarrow> string \<Rightarrow> string list" where
  "split_from re field prev [] = [field]"
| "split_from re field prev (c # t) =
     (case match_here re prev (c # t) of
        None \<Rightarrow> split_from re (field @ [c]) (Some c) t
      | Some (n, cs) \<Rightarrow>
          if n = 0 \<and> field = [] then split_from re [c] (Some c) t
          else if n = 0 then field # split_from re [] prev (c # t)
          else field # split_from re [] (Some (last (take n (c # t)))) (drop n (c # t)))"
  by pat_completeness auto
termination
proof (relation "measure (\<lambda>(re, field, prev, s). 2 * length s + (if field = [] then 0 else 1))", goal_cases)
  case 1
  show ?case by simp
next
  case (2 re field prev c t)
  then show ?case by simp
next
  case (3 re field prev c t x n cs)
  then show ?case by simp
next
  case (4 re field prev c t x n cs)
  then show ?case by simp
next
  case (5 re field prev c t x n cs)
  then have "n \<le> length (c # t)" using match_here_le by metis
  with 5 show ?case by (cases n) auto
qed

definition js_split :: "regexp \<Rightarrow> string \<Rightarrow> string list" where
  "js_split re s =
     (if s = [] then (if match_here re None [] = None then [[]] else [])
      else split_from re [] None s)"

text \<open>\<open>split\<close> with a separator of one code unit, and \<open>Array.prototype.join\<close>.\<close>

fun split_on :: "char \<Rightarrow> string \<Rightarrow> string list" where
  "split_on sep [] = [[]]"
| "split_on sep (c # t) =
     (if c = sep then [] # split_on sep t
      else (case split_on sep t of [] \<Rightarrow> [[c]] | field # fields \<Rightarrow> (c # field) # fields))"

fun join :: "string \<Rightarrow> string list \<Rightarrow> string" where
  "join sep [] = []"
| "join sep [x] = x"
| "join sep (x # y # ys) = x @ sep @ join sep (y # ys)"

section \<open>Values shared by the modules\<close>

text \<open>Exceptions: a \<open>TypeError\<close> of the runtime (a property read from \<open>null\<close> or
  \<open>undefined\<close>), and an \<open>Error\<close> constructed by the program with its message.\<close>

datatype js_error = TypeError | Error string

datatype 'a outcome = Threw js_error | Returned 'a

text \<open>A post as the forum returns it, with the fields the program reads and the
  fields it adds (\<open>cleaned\<close>, \<open>url\<close>, \<open>reply_to\<close>).  An absent property is \<open>None\<close>.\<close>

record post =
  raw :: "string option"
  cleaned :: "string option"
  username :: string
  trust_level :: nat
  admin :: bool
  moderator :: bool
  staff :: bool
  topic_id :: nat
  topic_slug :: string
  post_number :: nat
  reply_to_post_number :: "nat option"
  url :: "string option"
  reply_to :: "string option"

text \<open>Truthiness of a value that is a string, \<open>null\<close> or \<open>undefined\<close>.\<close>

definition truthy :: "string option \<Rightarrow> bool" where
  "truthy v = (case v of None \<Rightarrow> False | Some s \<Rightarrow> s \<noteq> [])"

section \<open>commands.js\<close>

record parsed_command =
  input :: string
  command :: string
  args :: "string list"
  mention :: "string option"

text \<open>The separator \<open>/\s+/\<close> and the pattern \<open>/\s+$/\<close>.\<close>

definition spaces :: regexp where
  "spaces = RegExp (Plus (Cls False white_space)) False False False"

definition trailing_spaces :: regexp where
  "trailing_spaces = RegExp (Seq (Plus (Cls False white_space)) Eol) False False False"

text \<open>\<open>/^!\S{3,}(\s|$)/\<close>\<close>

definition short_command :: regexp where
  "short_command =
     RegExp (seqs [Bol, Chr CHR ''!'', AtLeast3 (Cls True white_space),
                   Grp 1 (Alt (Cls False white_space) Eol)]) False False False"

text \<open>
  \<open>prepareParser\<close>: \<open>new RegExp('^@' + config.core.username + '\\s\\S{3,}(\\s|$)', 'i')\<close>.
  The user name is pattern text; the model reads it as the forum's user names are
  written, in letters, digits, \<open>_\<close>, \<open>-\<close> and \<open>.\<close>, of which only \<open>.\<close> is not a
  literal of the pattern language.  A name with other signs of the pattern language
  (\<open>|\<close>, \<open>+\<close>, parentheses) is compiled by the code to another pattern than the
  one below, so the properties of the mention form are stated for names without them.
\<close>

definition name_char :: "char \<Rightarrow> rx" where
  "name_char c = (if c = CHR ''.'' then Dot else Chr c)"

definition prepareParser :: "string \<Rightarrow> regexp" where
  "prepareParser config_username =
     RegExp (seqs ([Bol, Chr CHR ''@''] @ map name_char config_username @
                   [Cls False white_space, AtLeast3 (Cls True white_space),
                    Grp 1 (Alt (Cls False white_space) Eol)])) True False False"

definition parseShortCommand :: "string \<Rightarrow> parsed_command option outcome" where
  "parseShortCommand line =
     (if \<not> js_test short_command line then Returned None
      else (case js_split spaces line of
              [] \<Rightarrow> Threw TypeError
            | first # rest_args \<Rightarrow>
                Returned (Some \<lparr>input = line, command = toLowerCase (drop 1 first),
                                args = rest_args, mention = None\<rparr>)))"

text \<open>\<open>internals.mention\<close> is \<open>null\<close> until \<open>prepareParser\<close> has run.\<close>

definition parseMentionCommand :: "regexp option \<Rightarrow> string \<Rightarrow> parsed_command option outcome" where
  "parseMentionCommand internals_mention line =
     (case internals_mention of
        None \<Rightarrow> Threw TypeError
      | Some re \<Rightarrow>
          if \<not> js_test re line then Returned None
          else (case js_split spaces line of
                  [] \<Rightarrow> Threw TypeError
                | [m] \<Rightarrow> Threw TypeError
                | m # word # rest_args \<Rightarrow>
                    Returned (Some \<lparr>input = js_replace trailing_spaces (\<lambda>_ _. [])
                                              (''!'' @ toLowerCase word @ '' '' @ join '' '' rest_args),
                                    command = toLowerCase word,
                                    args = rest_args, mention = Some m\<rparr>)))"

text \<open>One line of \<open>post.raw\<close>, as the \<open>map\<close> of \<open>parseCommands\<close> treats it.\<close>

definition parseLine :: "regexp option \<Rightarrow> string \<Rightarrow> parsed_command option outcome" where
  "parseLine internals_mention line =
     (case line of
        c # _ \<Rightarrow> if c = CHR ''!'' then parseShortCommand line
                 else parseMentionCommand internals_mention line
      | [] \<Rightarrow> parseMentionCommand internals_mention line)"

text \<open>The \<open>map\<close> over the lines stops at the first exception.\<close>

fun parseLines :: "regexp option \<Rightarrow> string list \<Rightarrow> parsed_command option list outcome" where
  "parseLines internals_mention [] = Returned []"
| "parseLines internals_mention (line # lines) =
     (case parseLine internals_mention line of
        Threw e \<Rightarrow> Threw e
      | Returned c \<Rightarrow>
          (case parseLines internals_mention lines of
             Threw e \<Rightarrow> Threw e
           | Returned cs \<Rightarrow> Returned (c # cs)))"

text \<open>
  \<open>parseCommands\<close>.  The result of a call: the arguments the callback was invoked
  with (an error, the commands), and the commands whose dispatch \<open>setImmediate\<close> has
  scheduled, in order.  No event is emitted before the call returns.
\<close>

record parse_result =
  callback_error :: "js_error option"
  callback_commands :: "parsed_command list"
  scheduled :: "parsed_command list"

definition somes :: "'a option list \<Rightarrow> 'a list" where
  "somes xs = concat (map (\<lambda>x. case x of None \<Rightarrow> [] | Some y \<Rightarrow> [y]) xs)"

definition parseCommands :: "regexp option \<Rightarrow> post option \<Rightarrow> bool \<Rightarrow> parse_result outcome" where
  "parseCommands internals_mention p callback_is_function =
     (if \<not> callback_is_function then Threw (Error ''callback must be supplied'')
      else (case p of
              None \<Rightarrow> Returned \<lparr>callback_error = None, callback_commands = [], scheduled = []\<rparr>
            | Some the_post \<Rightarrow>
                (case raw the_post of
                   None \<Rightarrow> Returned \<lparr>callback_error = None, callback_commands = [], scheduled = []\<rparr>
                 | Some text \<Rightarrow>
                     if text = []
                     then Returned \<lparr>callback_error = None, callback_commands = [], scheduled = []\<rparr>
                     else (case parseLines internals_mention
                                  (map (js_replace trailing_spaces (\<lambda>_ _. []))
                                       (split_on CHR 0x0A text)) of
                             Threw e \<Rightarrow> Threw e
                           | Returned cs \<Rightarrow>
                               Returned \<lparr>callback_error = None, callback_commands = somes cs,
                                         scheduled = somes cs\<rparr>))))"

text \<open>
  The deferred dispatch of one command, the body of the callback handed to
  \<open>setImmediate\<close>.  \<open>internals.events\<close> is \<open>null\<close> until \<open>prepareParser\<close> has run, and
  then the first call of \<open>emit\<close> is a \<open>TypeError\<close>.  The event bus is the host's: \<open>emit\<close>
  takes the state of the bus, the event name and the payload; it returns whether a
  listener handled the event, or throws, and leaves the bus in a new state.  An
  exception of \<open>emit\<close> leaves the callback at once.  The result is how the callback
  ends, and the bus afterwards.
\<close>

datatype payload = Command parsed_command post | Failure js_error

type_synonym 'b emit = "'b \<Rightarrow> string \<Rightarrow> payload \<Rightarrow> bool outcome \<times> 'b"

definition unhandled :: "parsed_command \<Rightarrow> js_error" where
  "unhandled c = Error (''command `'' @ command c @ ''` was unhandled.'')"

definition dispatch ::
  "'b emit \<Rightarrow> post \<Rightarrow> parsed_command \<Rightarrow> 'b option \<Rightarrow> unit outcome \<times> 'b option" where
  "dispatch emit the_post c internals_events =
     (case internals_events of
        None \<Rightarrow> (Threw TypeError, None)
      | Some bus \<Rightarrow>
          (case emit bus (''command#'' @ command c) (Command c the_post) of
             (Threw e, bus1) \<Rightarrow> (Threw e, Some bus1)
           | (Returned handled, bus1) \<Rightarrow>
               if \<not> handled \<and> \<not> truthy (mention c)
               then (case emit bus1 ''command#ERROR'' (Command c the_post) of
                       (Threw e, bus2) \<Rightarrow> (Threw e, Some bus2)
                     | (Returned handled2, bus2) \<Rightarrow>
                         if \<not> handled2
                         then (case emit bus2 ''error'' (Failure (unhandled c)) of
                                 (Threw e, bus3) \<Rightarrow> (Threw e, Some bus3)
                               | (Returned _, bus3) \<Rightarrow> (Returned (), Some bus3))
                         else (Returned (), Some bus2))
               else (Returned (), Some bus1)))"

text \<open>
  A bus that, beside its own state, keeps the calls of \<open>emit\<close> made on it, in order:
  the event names and payloads that \<open>dispatch\<close> has raised on the bus are read there.
\<close>

definition recording :: "'b emit \<Rightarrow> ('b \<times> (string \<times> payload) list) emit" where
  "recording emit st name pl =
     (case st of (bus, calls) \<Rightarrow>
        (case emit bus name pl of (r, bus1) \<Rightarrow> (r, (bus1, calls @ [(name, pl)]))))"

section \<open>browser.js: cleaning the raw text of a post\<close>

definition BACKTICK :: char where "BACKTICK = CHR 0x60"
definition LF :: char where "LF = CHR 0x0A"
definition CR :: char where "CR = CHR 0x0D"
definition STX :: char where "STX = CHR 0x02"
definition ETX :: char where "ETX = CHR 0x03"
definition DLE :: char where "DLE = CHR 0x10"
definition SUB :: char where "SUB = CHR 0x1A"

definition chars_between :: "nat \<Rightarrow> nat \<Rightarrow> char list" where
  "chars_between lo hi = map char_of [lo ..< Suc hi]"

text \<open>\<open>/\[(?!\x10)/g\<close>, replaced by \<open>'[\x10'\<close>\<close>

definition open_bracket :: regexp where
  "open_bracket = RegExp (Seq (Chr CHR ''['') (NotAhead (Chr DLE))) False False True"

definition hidetags :: "string \<Rightarrow> string" where
  "hidetags code = js_replace open_bracket (\<lambda>_ _. [CHR ''['', DLE]) code"

text \<open>\<open>fencedgreedy = /^````.*\n(?:.*\n)*```(?:\n|$)/gm\<close>\<close>

definition fencedgreedy :: regexp where
  "fencedgreedy =
     RegExp (seqs [Bol, lit (replicate 4 BACKTICK), Star Dot, Chr LF,
                   Star (Seq (Star Dot) (Chr LF)),
                   lit (replicate 3 BACKTICK), Alt (Chr LF) Eol]) False True True"

text \<open>\<open>fencedlazy = /^```(?:[^`\n].*)?\n(?:.*\n)*?```(?:\n|$)/gm\<close>\<close>

definition fencedlazy :: regexp where
  "fencedlazy =
     RegExp (seqs [Bol, lit (replicate 3 BACKTICK),
                   Opt (Seq (Cls True [BACKTICK, LF]) (Star Dot)), Chr LF,
                   LazyStar (Seq (Star Dot) (Chr LF)),
                   lit (replicate 3 BACKTICK), Alt (Chr LF) Eol]) False True True"

text \<open>\<open>inline = /(`+)[^]*?\1/g\<close>\<close>

definition inline :: regexp where
  "inline = RegExp (seqs [Grp 1 (Plus (Chr BACKTICK)), LazyStar (Cls True []), Ref 1]) False False True"

text \<open>\<open>/\r\n?/g\<close>\<close>

definition newlines :: regexp where
  "newlines = RegExp (Seq (Chr CR) (Opt (Chr LF))) False False True"

text \<open>\<open>/[\x00-\x08\x0b-\x1f]/g\<close>\<close>

definition control_chars :: regexp where
  "control_chars = RegExp (Cls False (chars_between 0x00 0x08 @ chars_between 0x0B 0x1F)) False False True"

text \<open>\<open>/\[quote(?:=[^[\]]*)?]/ig\<close>\<close>

definition quote_start :: regexp where
  "quote_start =
     RegExp (seqs [lit ''[quote'', Opt (Seq (Chr CHR ''='') (Star (Cls True ''[]''))),
                   Chr CHR '']'']) True False True"

text \<open>\<open>/\[\/quote]/ig\<close>\<close>

definition quote_end :: regexp where
  "quote_end = RegExp (lit ''[/quote]'') True False True"

text \<open>\<open>/\x02[^\x02\x03]*\x03/g\<close>\<close>

definition quote_block :: regexp where
  "quote_block = RegExp (seqs [Chr STX, Star (Cls True [STX, ETX]), Chr ETX]) False False True"

text \<open>\<open>/\x02[^\x1a]*\x1a/g\<close>\<close>

definition quote_unbalanced :: regexp where
  "quote_unbalanced = RegExp (seqs [Chr STX, Star (Cls True [SUB]), Chr SUB]) False False True"

text \<open>\<open>/^(`+)\x1a`/gm\<close>, replaced by \<open>'$1 `'\<close>\<close>

definition fence_joined :: regexp where
  "fence_joined = RegExp (seqs [Bol, Grp 1 (Plus (Chr BACKTICK)), Chr SUB, Chr BACKTICK]) False True True"

definition group :: "nat \<Rightarrow> (nat \<times> string) list \<Rightarrow> string" where
  "group k cs = (case map_of cs k of None \<Rightarrow> [] | Some g \<Rightarrow> g)"

text \<open>The first chain of replacements: everything up to the marking of the quote tags.\<close>

definition mark_quotes :: "string \<Rightarrow> string" where
  "mark_quotes text =
     js_replace quote_end (\<lambda>m _. m @ [ETX])
       (js_replace quote_start (\<lambda>m _. STX # m)
         (js_replace inline (\<lambda>m _. hidetags m)
           (js_replace fencedlazy (\<lambda>m _. hidetags m)
             (js_replace fencedgreedy (\<lambda>m _. hidetags m)
               (js_replace control_chars (\<lambda>_ _. [])
                 (js_replace newlines (\<lambda>_ _. [LF]) text))))))"

text \<open>The last chain: from the text the loop leaves to \<open>post.cleaned\<close>.\<close>

definition finish :: "string \<Rightarrow> string" where
  "finish text =
     js_replace fencedlazy (\<lambda>_ _. [])
       (js_replace fencedgreedy (\<lambda>_ _. [])
         (js_replace control_chars (\<lambda>_ _. [])
           (js_replace fence_joined (\<lambda>_ cs. group 1 cs @ [CHR '' '', BACKTICK])
             (js_replace quote_unbalanced (\<lambda>_ _. [SUB]) text))))"

text \<open>
  The loop \<open>do { text = edited; edited = text.replace(/\x02[^\x02\x03]*\x03/g, '\x1a'); }
  while (edited !== text)\<close>.  It ends: a match of the pattern has at least two code
  units and is replaced by one, so a pass that changes the text shortens it.
\<close>

lemma one_char_rest: "st' \<in> set (one_char p st) \<Longrightarrow> Suc (length (rest st')) = length (rest st)"
  by (cases "rest st") (auto simp: one_char_def split: if_splits)

lemma rep_greedy_le:
  assumes "\<And>st st'. st' \<in> set (f st) \<Longrightarrow> length (rest st') \<le> length (rest st)"
  shows "st' \<in> set (rep_greedy n f st) \<Longrightarrow> length (rest st') \<le> length (rest st)"
proof (induction n arbitrary: st)
  case 0
  then show ?case by simp
next
  case (Suc n)
  then show ?case by (fastforce simp: progress_def)
qed

lemma rep_lazy_le:
  assumes "\<And>st st'. st' \<in> set (f st) \<Longrightarrow> length (rest st') \<le> length (rest st)"
  shows "st' \<in> set (rep_lazy n f st) \<Longrightarrow> length (rest st') \<le> length (rest st)"
proof (induction n arbitrary: st)
  case 0
  then show ?case by simp
next
  case (Suc n)
  then show ?case by (fastforce simp: progress_def)
qed

lemma rx_match_le: "st' \<in> set (rx_match ic ml r st) \<Longrightarrow> length (rest st') \<le> length (rest st)"
proof (induction r arbitrary: st st')
  case (Seq a b)
  then show ?case by fastforce
next
  case (Star a)
  then show ?case using rep_greedy_le [of "rx_match ic ml a"] by auto
next
  case (LazyStar a)
  then show ?case using rep_lazy_le [of "rx_match ic ml a"] by auto
next
  case (Ref k)
  then show ?case by (auto simp: backref_def split: option.splits if_splits)
next
  case (Grp k a)
  then show ?case by (auto simp: capture_def)
qed (auto dest: one_char_rest split: option.splits list.splits if_splits)

lemma quote_block_two:
  assumes m: "match_here quote_block prev s = Some (n, cs)"
  shows "2 \<le> n"
proof -
  from m obtain st' sts where
    hd: "rx_match False False (pattern quote_block) (MState prev s []) = st' # sts"
    and n: "n = length s - length (rest st')"
    by (auto simp: match_here_def quote_block_def split: list.splits)
  from hd have "st' \<in> set (rx_match False False (pattern quote_block) (MState prev s []))"
    by simp
  then obtain st1 st2 where
    1: "st1 \<in> set (one_char (char_eq False STX) (MState prev s []))" and
    2: "st2 \<in> set (rx_match False False (Star (Cls True [STX, ETX])) st1)" and
    3: "st' \<in> set (one_char (char_eq False ETX) st2)"
    by (auto simp: quote_block_def seqs_def)
  from 1 have "Suc (length (rest st1)) = length s" by (auto dest: one_char_rest)
  moreover from 2 have "length (rest st2) \<le> length (rest st1)" by (rule rx_match_le)
  moreover from 3 have "Suc (length (rest st')) = length (rest st2)" by (rule one_char_rest)
  ultimately show ?thesis using n by simp
qed

lemma replace_all_shrinks:
  assumes two: "\<And>prev s n cs. match_here re prev s = Some (n, cs) \<Longrightarrow> 2 \<le> n"
    and one: "\<And>m cs. length (f m cs) \<le> 1"
  shows "replace_all re f prev s = s \<or> length (replace_all re f prev s) < length s"
  using assms
proof (induction re f prev s rule: replace_all.induct)
  case (1 re f prev s)
  note two = "1.prems"(1) and one = "1.prems"(2)
  show ?case
  proof (cases "match_here re prev s")
    case None
    show ?thesis
    proof (cases s)
      case Nil
      with None show ?thesis by (simp add: replace_all.simps [of re f prev "[]"])
    next
      case (Cons c t)
      have "replace_all re f (Some c) t = t \<or> length (replace_all re f (Some c) t) < length t"
        using "1.IH"(1) [OF None Cons two one] .
      moreover have "replace_all re f prev s = c # replace_all re f (Some c) t"
        using None Cons by (simp add: replace_all.simps [of re f prev "c # t"])
      ultimately show ?thesis using Cons by auto
    qed
  next
    case (Some a)
    obtain n cs where a: "a = (n, cs)" by (cases a)
    from Some a have n2: "2 \<le> n" using two by blast
    from Some a have nle: "n \<le> length s" using match_here_le by blast
    have eq: "replace_all re f prev s = f (take n s) cs @ replace_all re f (Some (last (take n s))) (drop n s)"
      using Some a n2 by (simp add: replace_all.simps [of re f prev s])
    have pos: "0 < n" using n2 by simp
    have "replace_all re f (Some (last (take n s))) (drop n s) = drop n s \<or>
          length (replace_all re f (Some (last (take n s))) (drop n s)) < length (drop n s)"
      using "1.IH"(2) [OF Some a [symmetric] pos two one] .
    then have "length (replace_all re f (Some (last (take n s))) (drop n s)) \<le> length (drop n s)"
      by (metis le_refl less_imp_le)
    moreover have "length (f (take n s) cs) \<le> 1" by (rule one)
    ultimately have "length (replace_all re f prev s) < length s"
      using eq n2 nle by simp
    then show ?thesis ..
  qed
qed

function strip_quote_blocks :: "string \<Rightarrow> string" where
  "strip_quote_blocks s =
     (let edited = js_replace quote_block (\<lambda>_ _. [SUB]) s
      in if edited \<noteq> s then strip_quote_blocks edited else s)"
  by pat_completeness auto
termination
proof (relation "measure length", goal_cases)
  case 1
  show ?case by simp
next
  case (2 s edited)
  have "replace_all quote_block (\<lambda>_ _. [SUB]) None s = s \<or>
        length (replace_all quote_block (\<lambda>_ _. [SUB]) None s) < length s"
    by (rule replace_all_shrinks) (auto dest: quote_block_two)
  with 2 show ?case by (simp add: js_replace_def quote_block_def)
qed

declare strip_quote_blocks.simps [simp del]

text \<open>\<open>cleanPostRaw\<close>: \<open>post.raw || ''\<close> goes through the three stages, and the result is
  stored in \<open>post.cleaned\<close>.\<close>

definition cleanPostRaw :: "post \<Rightarrow> post" where
  "cleanPostRaw p =
     p\<lparr>cleaned := Some (finish (strip_quote_blocks (mark_quotes
                            (case raw p of None \<Rightarrow> [] | Some r \<Rightarrow> r))))\<rparr>"

section \<open>browser.js: trust levels and links\<close>

record config =
  forum :: string
  core_username :: string
  core_password :: string
  owner :: string
  ignoreUsers :: "string list"

text \<open>The enumeration \<open>trustLevels\<close>.\<close>

definition tl_owner :: nat where "tl_owner = 9"
definition tl_admin :: nat where "tl_admin = 8"
definition tl_moderator :: nat where "tl_moderator = 7"
definition tl_staff :: nat where "tl_staff = 6"
definition tl_ignored :: nat where "tl_ignored = 0"

definition setTrustLevel :: "config \<Rightarrow> post \<Rightarrow> post" where
  "setTrustLevel cfg p =
     (if username p = owner cfg then p\<lparr>trust_level := tl_owner\<rparr>
      else if admin p then p\<lparr>trust_level := tl_admin\<rparr>
      else if moderator p then p\<lparr>trust_level := tl_moderator\<rparr>
      else if staff p then p\<lparr>trust_level := tl_staff\<rparr>
      else if username p \<in> set (ignoreUsers cfg) then p\<lparr>trust_level := tl_ignored\<rparr>
      else p)"

text \<open>The decimal form of a number, as string concatenation produces it.\<close>

fun string_of_nat :: "nat \<Rightarrow> string" where
  "string_of_nat n =
     (if n < 10 then [char_of (48 + n)]
      else string_of_nat (n div 10) @ [char_of (48 + n mod 10)])"

declare string_of_nat.simps [simp del]

definition setPostUrl :: "config \<Rightarrow> post \<Rightarrow> post" where
  "setPostUrl cfg p =
     (let base = forum cfg @ ''/t/'' @ topic_slug p @ ''/'' @ string_of_nat (topic_id p) @ ''/''
      in p\<lparr>url := Some (base @ string_of_nat (post_number p)),
            reply_to := Some (base @ (case reply_to_post_number p of
                                        None \<Rightarrow> []
                                      | Some n \<Rightarrow> if n = 0 then [] else string_of_nat n))\<rparr>)"

definition cleanPost :: "config \<Rightarrow> post \<Rightarrow> post" where
  "cleanPost cfg p = setPostUrl cfg (setTrustLevel cfg (cleanPostRaw p))"

section \<open>browser.js: the task queue\<close>

text \<open>
  A decoded response body.  \<open>JSON.parse\<close> is the runtime's; the model takes it as
  the parameter \<open>json_parse\<close>, which is \<open>None\<close> where \<open>JSON.parse\<close> throws.
\<close>

datatype json =
    JNull
  | JBool bool
  | JNumber int
  | JString string
  | JArray "json list"
  | JObject "(string \<times> json) list"

datatype body = Undefined | Text string | Json json

datatype form_value = Num nat | Str string

record task =
  task_method :: "string option"
  task_url :: "string option"
  task_form :: "(string \<times> form_value) list option"
  task_callback :: bool
  task_delay :: nat

text \<open>What the transport hands to the callback of \<open>internals.request\<close>: the error
  \<open>e\<close> (\<open>None\<close> for \<open>null\<close>) and the raw body (\<open>None\<close> for \<open>undefined\<close>).\<close>

record response =
  response_error :: "js_error option"
  response_body :: "string option"

record http_request =
  request_url :: "string option"
  request_method :: string
  request_form :: "(string \<times> form_value) list option"

text \<open>\<open>try { body = JSON.parse(body); } catch (ignore) {}\<close>: when the parse throws,
  \<open>body\<close> keeps the value it had.\<close>

definition parse_body :: "(string \<Rightarrow> json option) \<Rightarrow> string option \<Rightarrow> body" where
  "parse_body json_parse b =
     (case b of
        None \<Rightarrow> Undefined
      | Some s \<Rightarrow> (case json_parse s of None \<Rightarrow> Text s | Some j \<Rightarrow> Json j))"

text \<open>
  \<open>queueWorker\<close>: the request sent, the arguments \<open>task.callback\<close> is called with
  (when the task has a callback), and the delay after which the queue's own callback
  runs and the next task starts.
\<close>

record worker_result =
  sent :: http_request
  delivered :: "(js_error option \<times> body) option"
  next_after :: nat

definition queueWorker ::
  "(string \<Rightarrow> json option) \<Rightarrow> config \<Rightarrow> task \<Rightarrow> response \<Rightarrow> worker_result" where
  "queueWorker json_parse cfg t r =
     \<lparr>sent = \<lparr>request_url =
                  (case task_url t of
                     None \<Rightarrow> None
                   | Some u \<Rightarrow> (case u of
                                  [] \<Rightarrow> Some u
                                | c # _ \<Rightarrow> if c = CHR ''/'' then Some (forum cfg @ u) else Some u)),
               request_method = (if truthy (task_method t) then the (task_method t) else ''GET''),
               request_form = task_form t\<rparr>,
      delivered = (if task_callback t
                   then Some (response_error r, parse_body json_parse (response_body r))
                   else None),
      next_after = task_delay t\<rparr>"

text \<open>
  The state an operation of the module runs in: the remote service (\<open>service k\<close> is
  the response to the \<open>k\<close>-th request), the number of requests served, the token
  stored in \<open>defaults.headers['X-CSRF-Token']\<close>, and the log of what has happened:
  the requests sent and the invocations of the caller's completion callback.  A
  push on an idle queue is modelled: the task runs at once and its callback
  continues the operation.
\<close>

datatype event = Sent http_request | Completed "js_error option" "json option"

record world =
  service :: "nat \<Rightarrow> response"
  served :: nat
  csrf_token :: "json option"
  log :: "event list"

definition queue_push ::
  "(string \<Rightarrow> json option) \<Rightarrow> config \<Rightarrow> task \<Rightarrow> world \<Rightarrow> (js_error option \<times> body) option \<times> world" where
  "queue_push json_parse cfg t w =
     (let res = queueWorker json_parse cfg t (service w (served w))
      in (delivered res, w\<lparr>served := Suc (served w), log := log w @ [Sent (sent res)]\<rparr>))"

definition complete :: "js_error option \<Rightarrow> json option \<Rightarrow> world \<Rightarrow> world" where
  "complete e v w = w\<lparr>log := log w @ [Completed e v]\<rparr>"

text \<open>The receiver \<open>this\<close> of an operation: \<open>coreQueue\<close> or \<open>pluginQueue\<close>.\<close>

record queue_context =
  delay :: nat

definition coreQueue :: queue_context where "coreQueue = \<lparr>delay = 0\<rparr>"
definition pluginQueue :: queue_context where "pluginQueue = \<lparr>delay = 5000\<rparr>"

subsection \<open>readPosts\<close>

text \<open>The form of one batch: \<open>topic_id\<close>, \<open>topic_time\<close>, and a key \<open>timings[v]\<close> for
  every identifier \<open>v\<close> of the batch, a property assigned twice keeping its place.\<close>

definition timings_form :: "nat \<Rightarrow> nat list \<Rightarrow> (string \<times> form_value) list" where
  "timings_form topicId part =
     foldl (\<lambda>form v. AList.update (''timings['' @ string_of_nat v @ '']'') (Num 4242) form)
       [(''topic_id'', Num topicId), (''topic_time'', Num 4242)] part"

definition timings_task :: "queue_context \<Rightarrow> nat \<Rightarrow> nat list \<Rightarrow> task" where
  "timings_task ctx topicId part =
     \<lparr>task_method = Some ''POST'', task_url = Some ''/topics/timings'',
      task_form = Some (timings_form topicId part), task_callback = True,
      task_delay = delay ctx\<rparr>"

text \<open>
  \<open>async.whilst(test, iterator, callback)\<close> with the iterator of \<open>readPosts\<close>: while
  \<open>postIds\<close> is not empty, \<open>postIds.splice(0, 200)\<close> is submitted as one task, whose
  callback is \<open>next\<close>; an error passed to \<open>next\<close> ends the loop with
  \<open>callback(err)\<close>, and the end of the list ends it with \<open>callback(null)\<close>.
\<close>

function readPosts_whilst ::
  "(string \<Rightarrow> json option) \<Rightarrow> config \<Rightarrow> queue_context \<Rightarrow> nat \<Rightarrow> nat list \<Rightarrow> world \<Rightarrow> world" where
  "readPosts_whilst json_parse cfg ctx topicId postIds w =
     (if 0 < length postIds
      then (case queue_push json_parse cfg (timings_task ctx topicId (take 200 postIds)) w of
              (None, w1) \<Rightarrow> w1
            | (Some (e, b), w1) \<Rightarrow>
                (case e of
                   Some err \<Rightarrow> complete (Some err) None w1
                 | None \<Rightarrow> readPosts_whilst json_parse cfg ctx topicId (drop 200 postIds) w1))
      else complete None None w)"
  by pat_completeness auto
termination
  by (relation "measure (\<lambda>(json_parse, cfg, ctx, topicId, postIds, w). length postIds)") auto

declare readPosts_whilst.simps [simp del]

datatype post_ids = One nat | Many "nat list"

definition readPosts ::
  "(string \<Rightarrow> json option) \<Rightarrow> config \<Rightarrow> queue_context \<Rightarrow> nat \<Rightarrow> post_ids \<Rightarrow> bool \<Rightarrow> world \<Rightarrow> world outcome" where
  "readPosts json_parse cfg ctx topicId postIds callback_is_function w =
     (if \<not> callback_is_function then Threw (Error ''callback must be supplied'')
      else Returned (readPosts_whilst json_parse cfg ctx topicId
                       (case postIds of One n \<Rightarrow> [n] | Many ids \<Rightarrow> ids) w))"

subsection \<open>login\<close>

text \<open>Property access on a decoded body: \<open>(data || {}).name\<close> and \<open>data.name\<close>.  In an
  object parsed from JSON the last of several equal keys counts.\<close>

definition property :: "string \<Rightarrow> json \<Rightarrow> json option" where
  "property name j = (case j of JObject kvs \<Rightarrow> map_of (rev kvs) name | _ \<Rightarrow> None)"

definition falsy :: "json \<Rightarrow> bool" where
  "falsy j = (j = JNull \<or> j = JBool False \<or> j = JNumber 0 \<or> j = JString [])"

definition csrf_task :: "nat \<Rightarrow> task" where
  "csrf_task d =
     \<lparr>task_method = Some ''GET'', task_url = Some ''/session/csrf.json'',
      task_form = None, task_callback = True, task_delay = d\<rparr>"

definition login_task :: "config \<Rightarrow> nat \<Rightarrow> task" where
  "login_task cfg d =
     \<lparr>task_method = Some ''POST'', task_url = Some ''/session'',
      task_form = Some [(''login'', Str (core_username cfg)), (''password'', Str (core_password cfg))],
      task_callback = True, task_delay = d\<rparr>"

text \<open>\<open>getCSRF\<close>, \<open>doLogin\<close> and \<open>login\<close>, each with its callback as a continuation.
  \<open>Threw\<close> is an exception: thrown to the caller of \<open>login\<close> when the callback is
  missing, and thrown inside the login task's callback when \<open>user\<close> is read from
  \<open>undefined\<close> or \<open>null\<close> (the caller's callback is then never invoked).\<close>

definition getCSRF ::
  "(string \<Rightarrow> json option) \<Rightarrow> config \<Rightarrow> nat \<Rightarrow> (js_error option \<Rightarrow> world \<Rightarrow> world outcome) \<Rightarrow>
   world \<Rightarrow> world outcome" where
  "getCSRF json_parse cfg d callback w =
     (case queue_push json_parse cfg (csrf_task d) w of
        (None, w1) \<Rightarrow> Returned w1
      | (Some (e, data), w1) \<Rightarrow>
          (case e of
             Some err \<Rightarrow> callback (Some err) w1
           | None \<Rightarrow>
               callback None
                 (w1\<lparr>csrf_token :=
                    (case data of Json j \<Rightarrow> if falsy j then None else property ''csrf'' j
                     | _ \<Rightarrow> None)\<rparr>)))"

definition doLogin ::
  "(string \<Rightarrow> json option) \<Rightarrow> config \<Rightarrow> nat \<Rightarrow>
   (js_error option \<Rightarrow> json option \<Rightarrow> world \<Rightarrow> world outcome) \<Rightarrow> world \<Rightarrow> world outcome" where
  "doLogin json_parse cfg d callback w =
     (case queue_push json_parse cfg (login_task cfg d) w of
        (None, w1) \<Rightarrow> Returned w1
      | (Some (e, data), w1) \<Rightarrow>
          (case e of
             Some err \<Rightarrow> callback (Some err) None w1
           | None \<Rightarrow>
               (case data of
                  Undefined \<Rightarrow> Threw TypeError
                | Text s \<Rightarrow> callback None (Some (JObject [])) w1
                | Json j \<Rightarrow>
                    if j = JNull then Threw TypeError
                    else (case property ''user'' j of
                            None \<Rightarrow> callback None (Some (JObject [])) w1
                          | Some u \<Rightarrow>
                              callback None (Some (if falsy u then JObject [] else u)) w1))))"

definition login ::
  "(string \<Rightarrow> json option) \<Rightarrow> config \<Rightarrow> queue_context \<Rightarrow> bool \<Rightarrow> world \<Rightarrow> world outcome" where
  "login json_parse cfg ctx callback_is_function w =
     (if \<not> callback_is_function then Threw (Error ''callback must be supplied'')
      else getCSRF json_parse cfg (delay ctx)
             (\<lambda>err w1. case err of
                          Some e \<Rightarrow> Returned (complete (Some e) None w1)
                        | None \<Rightarrow> doLogin json_parse cfg (delay ctx)
                                    (\<lambda>e v w2. Returned (complete e v w2)) w1) w)"

text \<open>
  Text without markup: no backtick, no opening bracket, and none of the control
  characters that the pattern \<open>/[\x00-\x08\x0b-\x1f]/\<close> removes (carriage return and the
  markers of \<open>cleanPostRaw\<close> are among them).
\<close>

definition is_control :: "char \<Rightarrow> bool" where
  "is_control c = (code_unit c \<le> 0x08 \<or> (0x0B \<le> code_unit c \<and> code_unit c \<le> 0x1F))"

definition plain_char :: "char \<Rightarrow> bool" where
  "plain_char c = (c \<noteq> BACKTICK \<and> c \<noteq> CHR ''['' \<and> \<not> is_control c)"

definition plain :: "string \<Rightarrow> bool" where
  "plain s = list_all plain_char s"

text \<open>A quote block inside a quote block, with text around and between.\<close>

definition nested :: "string \<Rightarrow> string \<Rightarrow> string \<Rightarrow> string \<Rightarrow> string \<Rightarrow> string" where
  "nested A B C D E = A @ ''[quote]'' @ B @ ''[quote]'' @ C @ ''[/quote]'' @ D @ ''[/quote]'' @ E"

text \<open>The states a greedy repetition of a one-character pattern backtracks through:
  after all of \<open>u\<close>, then after one character less, down to none.\<close>

fun runs :: "char option \<Rightarrow> string \<Rightarrow> string \<Rightarrow> (nat \<times> string) list \<Rightarrow> mstate list" where
  "runs p [] v cs = [MState p v cs]"
| "runs p (x # u) v cs = runs (Some x) u v cs @ [MState p (x # u @ v) cs]"

text \<open>White space, the characters of a forum user name that the pattern language
  reads as themselves, and the end of both command patterns, \<open>\S{3,}(\s|$)\<close>.\<close>

definition is_space :: "char \<Rightarrow> bool" where
  "is_space c = (c \<in> set white_space)"

definition name_ok :: "char \<Rightarrow> bool" where
  "name_ok c = ((0x30 \<le> code_unit c \<and> code_unit c \<le> 0x39) \<or> (0x41 \<le> code_unit c \<and> code_unit c \<le> 0x5A) \<or>
                (0x61 \<le> code_unit c \<and> code_unit c \<le> 0x7A) \<or> code_unit c = 0x5F \<or> code_unit c = 0x2D)"

definition word_pattern :: rx where
  "word_pattern = seqs [AtLeast3 (Cls True white_space), Grp 1 (Alt (Cls False white_space) Eol)]"

text \<open>
  The batches of \<open>readPosts\<close> as the specification words them: slices of at most
  200 identifiers, taken off the front until the list is exhausted; and the request
  \<open>queueWorker\<close> sends for a batch.
\<close>

fun slices :: "nat list \<Rightarrow> nat list list" where
  "slices ids = (if ids = [] then [] else take 200 ids # slices (drop 200 ids))"

declare slices.simps [simp del]

definition timings_request :: "config \<Rightarrow> nat \<Rightarrow> nat list \<Rightarrow> http_request" where
  "timings_request cfg topicId part =
     \<lparr>request_url = Some (forum cfg @ ''/topics/timings''), request_method = ''POST'',
      request_form = Some (timings_form topicId part)\<rparr>"

section \<open>Facts about characters and the matcher\<close>

lemma code_unit_inj: "a = b \<longleftrightarrow> code_unit a = code_unit b"
  by (simp add: code_unit_def)

lemma code_unit_less: "code_unit c < 256"
  by (simp add: code_unit_def)

lemma code_unit_char_of: "n < 256 \<Longrightarrow> code_unit (char_of n) = n"
  by (simp add: code_unit_def)

lemma code_to_upper:
  "code_unit (to_upper c) =
     (if (0x61 \<le> code_unit c \<and> code_unit c \<le> 0x7A) \<or>
         (0xE0 \<le> code_unit c \<and> code_unit c \<le> 0xFE \<and> code_unit c \<noteq> 0xF7)
      then code_unit c - 32 else code_unit c)"
  using code_unit_less [of c] by (simp add: to_upper_def code_unit_char_of)

lemma code_values:
  "code_unit CHR ''['' = 0x5B" "code_unit CHR '']'' = 0x5D" "code_unit CHR ''='' = 0x3D"
  "code_unit CHR ''/'' = 0x2F" "code_unit CHR ''q'' = 0x71" "code_unit CHR ''u'' = 0x75"
  "code_unit CHR ''o'' = 0x6F" "code_unit CHR ''t'' = 0x74" "code_unit CHR ''e'' = 0x65"
  "code_unit BACKTICK = 0x60" "code_unit LF = 0x0A" "code_unit CR = 0x0D"
  "code_unit STX = 0x02" "code_unit ETX = 0x03" "code_unit DLE = 0x10" "code_unit SUB = 0x1A"
  by (simp_all add: code_unit_def BACKTICK_def LF_def CR_def STX_def ETX_def DLE_def SUB_def)

lemma char_eq_bracket: "char_eq ic CHR ''['' c \<longleftrightarrow> c = CHR ''[''"
  by (auto simp: char_eq_def code_unit_inj code_to_upper code_values split: if_splits)

lemma char_eq_plain: "char_eq False a c \<longleftrightarrow> a = c"
  by (simp add: char_eq_def)

lemma in_chars_between:
  "hi < 256 \<Longrightarrow> list_ex (\<lambda>a. a = x) (chars_between lo hi) \<longleftrightarrow> lo \<le> code_unit x \<and> code_unit x \<le> hi"
proof -
  assume hi: "hi < 256"
  have "list_ex (\<lambda>a. a = x) (chars_between lo hi) \<longleftrightarrow> (\<exists>n. lo \<le> n \<and> n \<le> hi \<and> char_of n = x)"
    by (auto simp: chars_between_def list_ex_iff)
  also have "\<dots> \<longleftrightarrow> lo \<le> code_unit x \<and> code_unit x \<le> hi"
  proof
    assume "\<exists>n. lo \<le> n \<and> n \<le> hi \<and> char_of n = x"
    then obtain n where n: "lo \<le> n" "n \<le> hi" "char_of n = x" by blast
    then have "code_unit x = n" using hi code_unit_char_of [of n] by auto
    with n show "lo \<le> code_unit x \<and> code_unit x \<le> hi" by simp
  next
    assume "lo \<le> code_unit x \<and> code_unit x \<le> hi"
    moreover have "char_of (code_unit x) = x" by (simp add: code_unit_def)
    ultimately show "\<exists>n. lo \<le> n \<and> n \<le> hi \<and> char_of n = x" by blast
  qed
  finally show ?thesis .
qed

lemma in_class_control:
  "in_class False False (chars_between 0x00 0x08 @ chars_between 0x0B 0x1F) x = is_control x"
  by (simp add: in_class_def char_eq_def is_control_def in_chars_between)


lemma replace_all_Nil: "match_here re prev [] = None \<Longrightarrow> replace_all re f prev [] = []"
  by (simp add: replace_all.simps [of re f prev "[]"])

lemma replace_all_miss:
  "match_here re prev (c # s) = None \<Longrightarrow> replace_all re f prev (c # s) = c # replace_all re f (Some c) s"
  by (simp add: replace_all.simps [of re f prev "c # s"])

lemma replace_all_hit:
  "match_here re prev s = Some (n, cs) \<Longrightarrow> 0 < n \<Longrightarrow>
   replace_all re f prev s = f (take n s) cs @ replace_all re f (Some (last (take n s))) (drop n s)"
  by (simp add: replace_all.simps [of re f prev s])

lemma replace_all_skip:
  assumes miss: "\<And>prev c s. c \<in> set A \<Longrightarrow> match_here re prev (c # s) = None"
    and rest: "\<And>prev. replace_all re f prev X = R"
  shows "replace_all re f prev (A @ X) = A @ R"
  using miss
proof (induction A arbitrary: prev)
  case Nil
  show ?case by (simp add: rest)
next
  case (Cons a A)
  have "replace_all re f prev (a # (A @ X)) = a # replace_all re f (Some a) (A @ X)"
    by (rule replace_all_miss) (simp add: Cons.prems)
  then show ?case using Cons.IH Cons.prems by simp
qed

lemma replace_all_match:
  assumes hit: "\<And>prev. match_here re prev (M @ X) = Some (length M, cs)"
    and ne: "M \<noteq> []"
    and rest: "\<And>prev. replace_all re f prev X = R"
  shows "replace_all re f prev (M @ X) = f M cs @ R"
  using replace_all_hit [OF hit, of f prev] ne rest by simp

lemma replace_all_same:
  assumes miss: "\<And>prev c s. c \<in> set A \<Longrightarrow> match_here re prev (c # s) = None"
    and nil: "\<And>prev. match_here re prev [] = None"
  shows "replace_all re f prev A = A"
  using replace_all_skip [where X = "[]" and R = "[]" and A = A, OF miss] replace_all_Nil [OF nil]
  by simp

lemma lit3: "lit [a, b, c] = Seq (Chr a) (Seq (Chr b) (Seq (Chr c) Eps))"
  by (simp add: lit_def)

lemma fence3: "replicate 3 BACKTICK = [BACKTICK, BACKTICK, BACKTICK]"
  by (simp add: eval_nat_numeral)

lemma fence4: "replicate 4 BACKTICK = [BACKTICK, BACKTICK, BACKTICK, BACKTICK]"
  by (simp add: eval_nat_numeral)

lemma newlines_miss: "c \<noteq> CR \<Longrightarrow> match_here newlines prev (c # s) = None"
  by (simp add: match_here_def newlines_def one_char_def char_eq_def)

lemma newlines_nil: "match_here newlines prev [] = None"
  by (simp add: match_here_def newlines_def one_char_def)

lemma control_miss: "\<not> is_control c \<Longrightarrow> match_here control_chars prev (c # s) = None"
  by (simp add: match_here_def control_chars_def one_char_def in_class_control)

lemma control_hit: "is_control c \<Longrightarrow> match_here control_chars prev (c # s) = Some (1, [])"
  by (simp add: match_here_def control_chars_def one_char_def in_class_control)

lemma control_nil: "match_here control_chars prev [] = None"
  by (simp add: match_here_def control_chars_def one_char_def)

lemma fencedgreedy_miss: "c \<noteq> BACKTICK \<Longrightarrow> match_here fencedgreedy prev (c # s) = None"
  by (simp add: match_here_def fencedgreedy_def seqs_def lit_def fence4 one_char_def char_eq_def
        split: option.splits)

lemma fencedgreedy_nil: "match_here fencedgreedy prev [] = None"
  by (simp add: match_here_def fencedgreedy_def seqs_def lit_def fence4 one_char_def
        split: option.splits)

lemma fencedlazy_miss: "c \<noteq> BACKTICK \<Longrightarrow> match_here fencedlazy prev (c # s) = None"
  by (simp add: match_here_def fencedlazy_def seqs_def lit_def fence3 one_char_def char_eq_def
        split: option.splits)

lemma fencedlazy_nil: "match_here fencedlazy prev [] = None"
  by (simp add: match_here_def fencedlazy_def seqs_def lit_def fence3 one_char_def
        split: option.splits)

lemma inline_miss: "c \<noteq> BACKTICK \<Longrightarrow> match_here inline prev (c # s) = None"
  by (simp add: match_here_def inline_def seqs_def Plus_def one_char_def char_eq_def)

lemma inline_nil: "match_here inline prev [] = None"
  by (simp add: match_here_def inline_def seqs_def Plus_def one_char_def)

lemma fence_joined_miss: "c \<noteq> BACKTICK \<Longrightarrow> match_here fence_joined prev (c # s) = None"
  by (simp add: match_here_def fence_joined_def seqs_def Plus_def one_char_def char_eq_def
        split: option.splits)

lemma fence_joined_nil: "match_here fence_joined prev [] = None"
  by (simp add: match_here_def fence_joined_def seqs_def Plus_def one_char_def
        split: option.splits)

lemma quote_start_miss: "c \<noteq> CHR ''['' \<Longrightarrow> match_here quote_start prev (c # s) = None"
  by (simp add: match_here_def quote_start_def seqs_def lit_def one_char_def char_eq_bracket)

lemma quote_start_nil: "match_here quote_start prev [] = None"
  by (simp add: match_here_def quote_start_def seqs_def lit_def one_char_def)

lemma quote_end_miss: "c \<noteq> CHR ''['' \<Longrightarrow> match_here quote_end prev (c # s) = None"
  by (simp add: match_here_def quote_end_def seqs_def lit_def one_char_def char_eq_bracket)

lemma quote_end_nil: "match_here quote_end prev [] = None"
  by (simp add: match_here_def quote_end_def seqs_def lit_def one_char_def)

lemma quote_block_miss: "c \<noteq> STX \<Longrightarrow> match_here quote_block prev (c # s) = None"
  by (simp add: match_here_def quote_block_def seqs_def one_char_def char_eq_def)

lemma quote_block_nil: "match_here quote_block prev [] = None"
  by (simp add: match_here_def quote_block_def seqs_def one_char_def)

lemma quote_unbalanced_miss: "c \<noteq> STX \<Longrightarrow> match_here quote_unbalanced prev (c # s) = None"
  by (simp add: match_here_def quote_unbalanced_def seqs_def one_char_def char_eq_def)

lemma quote_unbalanced_nil: "match_here quote_unbalanced prev [] = None"
  by (simp add: match_here_def quote_unbalanced_def seqs_def one_char_def)


lemma char_eq_refl: "char_eq ic a a"
  by (simp add: char_eq_def)

lemma char_eq_code: "char_eq True a b \<longleftrightarrow> code_unit (to_upper a) = code_unit (to_upper b)"
  by (simp add: char_eq_def code_unit_inj)

lemma quote_start_hit: "match_here quote_start prev (''[quote]'' @ X) = Some (7, [])"
  by (simp add: match_here_def quote_start_def seqs_def lit_def one_char_def char_eq_refl
        char_eq_code code_to_upper code_values progress_def)

lemma quote_start_not_end: "match_here quote_start prev (''[/quote]'' @ X) = None"
  by (simp add: match_here_def quote_start_def seqs_def lit_def one_char_def char_eq_refl
        char_eq_code code_to_upper code_values progress_def)

lemma quote_end_hit: "match_here quote_end prev (''[/quote]'' @ X) = Some (8, [])"
  by (simp add: match_here_def quote_end_def seqs_def lit_def one_char_def char_eq_refl
        char_eq_code code_to_upper code_values progress_def)

lemma quote_end_not_start: "match_here quote_end prev (''[quote]'' @ X) = None"
  by (simp add: match_here_def quote_end_def seqs_def lit_def one_char_def char_eq_refl
        char_eq_code code_to_upper code_values progress_def)

lemma one_char_Cons: "one_char P (MState p (x # s) cs) = (if P x then [MState (Some x) s cs] else [])"
  by (simp add: one_char_def)

lemma one_char_Nil: "one_char P (MState p [] cs) = []"
  by (simp add: one_char_def)

lemma rep_greedy_runs:
  assumes "\<forall>c \<in> set u. P c" and "v = [] \<or> \<not> P (hd v)" and "length (u @ v) \<le> n"
  shows "rep_greedy n (one_char P) (MState p (u @ v) cs) = runs p u v cs"
  using assms
proof (induction u arbitrary: p n)
  case Nil
  then show ?case by (cases n; cases v) (auto simp: one_char_Cons one_char_Nil)
next
  case (Cons x u)
  then obtain m where n: "n = Suc m" by (cases n) auto
  have "rep_greedy m (one_char P) (MState (Some x) (u @ v) cs) = runs (Some x) u v cs"
    using Cons.prems n by (intro Cons.IH) auto
  then show ?case using Cons.prems n by (simp add: one_char_Cons progress_def)
qed

lemma rx_match_Cls: "rx_match ic ml (Cls neg cls) = one_char (in_class ic neg cls)"
  by (rule ext) simp

lemma star_runs:
  assumes "\<forall>c \<in> set u. in_class ic neg cls c" and "v = [] \<or> \<not> in_class ic neg cls (hd v)"
  shows "rx_match ic ml (Star (Cls neg cls)) (MState p (u @ v) cs) = runs p u v cs"
  using rep_greedy_runs [of u "in_class ic neg cls" v "length (u @ v)" p cs] assms
  by (simp add: rx_match_Cls)

lemma runs_then:
  assumes "\<And>p x s. x \<in> set u \<Longrightarrow> k (MState p (x # s) cs) = []"
  shows "concat (map k (runs p u v cs)) = k (MState (if u = [] then p else Some (last u)) v cs)"
  using assms by (induction u arbitrary: p) auto

lemma in_class_not_stx_etx: "in_class False True [STX, ETX] x \<longleftrightarrow> x \<noteq> STX \<and> x \<noteq> ETX"
  by (auto simp: in_class_def char_eq_def)

lemma in_class_not_sub: "in_class False True [SUB] x \<longleftrightarrow> x \<noteq> SUB"
  by (auto simp: in_class_def char_eq_def)

lemma rx_match_Eps: "rx_match ic ml Eps = (\<lambda>st. [st])"
  by (rule ext) simp

lemma rx_match_Chr_Eps: "rx_match False ml (Seq (Chr c) Eps) = one_char (\<lambda>x. x = c)"
proof -
  have "char_eq False c = (\<lambda>x. x = c)" by (rule ext) (auto simp: char_eq_def)
  then show ?thesis by (intro ext) (simp add: rx_match_Eps)
qed

lemma quote_block_unfold:
  "match_here quote_block prev (STX # w) =
     (case concat (map (one_char (\<lambda>x. x = ETX))
                    (rx_match False False (Star (Cls True [STX, ETX])) (MState (Some STX) w []))) of
        [] \<Rightarrow> None
      | st # _ \<Rightarrow> Some (length (STX # w) - length (rest st), caps st))"
proof -
  have "rx_match False False (Seq (Chr STX) (Seq (Star (Cls True [STX, ETX])) (Seq (Chr ETX) Eps)))
          (MState prev (STX # w) []) =
        concat (map (rx_match False False (Seq (Chr ETX) Eps))
                 (rx_match False False (Star (Cls True [STX, ETX])) (MState (Some STX) w [])))"
    by (simp add: one_char_Cons char_eq_def del: rx_match.simps(9))
  then show ?thesis
    by (simp add: match_here_def quote_block_def seqs_def rx_match_Chr_Eps del: rx_match.simps)
qed

lemma stx_run_then_etx:
  assumes "\<forall>c \<in> set u. c \<noteq> STX \<and> c \<noteq> ETX" and "v = [] \<or> hd v = STX \<or> hd v = ETX"
  shows "concat (map (one_char (\<lambda>x. x = ETX))
           (rx_match False False (Star (Cls True [STX, ETX])) (MState (Some STX) (u @ v) []))) =
         one_char (\<lambda>x. x = ETX) (MState (if u = [] then Some STX else Some (last u)) v [])"
proof -
  have "rx_match False False (Star (Cls True [STX, ETX])) (MState (Some STX) (u @ v) []) =
        runs (Some STX) u v []"
    by (rule star_runs) (use assms in \<open>auto simp: in_class_not_stx_etx\<close>)
  moreover have "concat (map (one_char (\<lambda>x. x = ETX)) (runs (Some STX) u v [])) =
        one_char (\<lambda>x. x = ETX) (MState (if u = [] then Some STX else Some (last u)) v [])"
    by (rule runs_then) (use assms in \<open>auto simp: one_char_Cons\<close>)
  ultimately show ?thesis by simp
qed

lemma quote_block_hit:
  assumes "\<forall>c \<in> set u. c \<noteq> STX \<and> c \<noteq> ETX"
  shows "match_here quote_block prev (STX # u @ ETX # X) = Some (length u + 2, [])"
proof -
  have eq: "concat (map (one_char (\<lambda>x. x = ETX))
           (rx_match False False (Star (Cls True [STX, ETX])) (MState (Some STX) (u @ ETX # X) []))) =
        [MState (Some ETX) X []]"
    using stx_run_then_etx [OF assms, of "ETX # X"] by (simp add: one_char_Cons del: rx_match.simps)
  show ?thesis
    unfolding quote_block_unfold eq by simp
qed

lemma quote_block_open:
  assumes "\<forall>c \<in> set u. c \<noteq> STX \<and> c \<noteq> ETX" and "v = [] \<or> hd v = STX"
  shows "match_here quote_block prev (STX # u @ v) = None"
proof -
  have "one_char (\<lambda>x. x = ETX) (MState (if u = [] then Some STX else Some (last u)) v []) = []"
    using assms(2) by (cases v) (auto simp: one_char_Cons one_char_Nil STX_def ETX_def)
  moreover have "v = [] \<or> hd v = STX \<or> hd v = ETX" using assms(2) by blast
  ultimately have eq: "concat (map (one_char (\<lambda>x. x = ETX))
           (rx_match False False (Star (Cls True [STX, ETX])) (MState (Some STX) (u @ v) []))) = []"
    using stx_run_then_etx [OF assms(1), of v] by (simp only:)
  show ?thesis
    unfolding quote_block_unfold eq by simp
qed

section \<open>cleanPostRaw on nested quotes in plain text\<close>

lemma control_values: "is_control CR" "is_control STX" "is_control ETX" "is_control DLE" "is_control SUB"
  "\<not> is_control CHR ''[''" "\<not> is_control CHR '']''" "\<not> is_control CHR ''/''"
  "\<not> is_control CHR ''q''" "\<not> is_control CHR ''u''" "\<not> is_control CHR ''o''"
  "\<not> is_control CHR ''t''" "\<not> is_control CHR ''e''"
  by (simp_all add: is_control_def code_values)

lemma plainD:
  assumes "plain s" and "c \<in> set s"
  shows "c \<noteq> BACKTICK" "c \<noteq> CHR ''[''" "\<not> is_control c" "c \<noteq> CR" "c \<noteq> STX" "c \<noteq> ETX"
    "c \<noteq> DLE" "c \<noteq> SUB"
  using assms control_values by (auto simp: plain_def plain_char_def list_all_iff)

lemma special_neq:
  "STX \<noteq> CHR ''[''" "ETX \<noteq> CHR ''[''" "SUB \<noteq> CHR ''[''" "STX \<noteq> BACKTICK" "ETX \<noteq> BACKTICK"
  "SUB \<noteq> BACKTICK" "STX \<noteq> ETX" "SUB \<noteq> STX" "SUB \<noteq> ETX" "STX \<noteq> CR" "ETX \<noteq> CR" "SUB \<noteq> CR"
  by (simp_all add: STX_def ETX_def SUB_def BACKTICK_def CR_def)

lemma tag_chars:
  "c \<in> set ''[quote]'' \<or> c \<in> set ''[/quote]'' \<Longrightarrow>
     c \<noteq> BACKTICK \<and> \<not> is_control c \<and> c \<noteq> CR \<and> c \<noteq> STX \<and> c \<noteq> ETX \<and> c \<noteq> SUB"
  using control_values by (auto simp: BACKTICK_def)


lemma nested_chars:
  assumes "plain A" "plain B" "plain C" "plain D" "plain E" and "c \<in> set (nested A B C D E)"
  shows "c \<noteq> BACKTICK \<and> \<not> is_control c \<and> c \<noteq> CR \<and> c \<noteq> STX \<and> c \<noteq> ETX \<and> c \<noteq> SUB"
proof -
  from assms(6) consider "c \<in> set A" | "c \<in> set B" | "c \<in> set C" | "c \<in> set D" | "c \<in> set E"
    | "c \<in> set ''[quote]'' \<or> c \<in> set ''[/quote]''"
    unfolding nested_def set_append by blast
  then show ?thesis
  proof cases
    case 6
    then show ?thesis by (rule tag_chars)
  qed (use assms(1-5) in \<open>simp_all add: plainD\<close>)
qed

lemma all_global:
  "global newlines" "global control_chars" "global fencedgreedy" "global fencedlazy" "global inline"
  "global quote_start" "global quote_end" "global quote_block" "global quote_unbalanced"
  "global fence_joined" "global open_bracket"
  by (simp_all add: newlines_def control_chars_def fencedgreedy_def fencedlazy_def inline_def
        quote_start_def quote_end_def quote_block_def quote_unbalanced_def fence_joined_def
        open_bracket_def)

lemma js_replace_same:
  assumes "global re"
    and "\<And>prev c s. c \<in> set T \<Longrightarrow> match_here re prev (c # s) = None"
    and "\<And>prev. match_here re prev [] = None"
  shows "js_replace re f T = T"
  using assms replace_all_same [where A = T and re = re and prev = None and f = f] by (simp add: js_replace_def)

text \<open>The first five replacements leave the text as it is.\<close>

lemma nested_unprotected:
  assumes "plain A" "plain B" "plain C" "plain D" "plain E"
  shows "js_replace inline (\<lambda>m _. hidetags m)
           (js_replace fencedlazy (\<lambda>m _. hidetags m)
             (js_replace fencedgreedy (\<lambda>m _. hidetags m)
               (js_replace control_chars (\<lambda>_ _. [])
                 (js_replace newlines (\<lambda>_ _. [LF]) (nested A B C D E))))) = nested A B C D E"
proof -
  note ch = nested_chars [OF assms]
  have 1: "js_replace newlines f (nested A B C D E) = nested A B C D E" for f
    by (rule js_replace_same [OF all_global(1)]) (simp_all add: ch newlines_miss newlines_nil)
  have 2: "js_replace control_chars f (nested A B C D E) = nested A B C D E" for f
    by (rule js_replace_same [OF all_global(2)]) (simp_all add: ch control_miss control_nil)
  have 3: "js_replace fencedgreedy f (nested A B C D E) = nested A B C D E" for f
    by (rule js_replace_same [OF all_global(3)]) (simp_all add: ch fencedgreedy_miss fencedgreedy_nil)
  have 4: "js_replace fencedlazy f (nested A B C D E) = nested A B C D E" for f
    by (rule js_replace_same [OF all_global(4)]) (simp_all add: ch fencedlazy_miss fencedlazy_nil)
  have 5: "js_replace inline f (nested A B C D E) = nested A B C D E" for f
    by (rule js_replace_same [OF all_global(5)]) (simp_all add: ch inline_miss inline_nil)
  show ?thesis by (simp only: 1 2 3 4 5)
qed

text \<open>Marking the tags.\<close>

lemma quote_start_over_start:
  assumes "\<And>prev. replace_all quote_start f prev X = R"
  shows "replace_all quote_start f prev (''[quote]'' @ X) = f ''[quote]'' [] @ R"
  using replace_all_match [where re = quote_start and M = "''[quote]''" and X = X and cs = "[]" and f = f and R = R and prev = prev] assms quote_start_hit
  by simp

lemma quote_start_over_end:
  assumes "\<And>prev. replace_all quote_start f prev X = R"
  shows "replace_all quote_start f prev (''[/quote]'' @ X) = ''[/quote]'' @ R"
proof -
  have "replace_all quote_start f p (''/quote]'' @ X) = ''/quote]'' @ R" for p
    by (rule replace_all_skip) (use assms quote_start_miss in auto)
  then show ?thesis
    using replace_all_miss [where re = quote_start and prev = prev and c = "CHR ''[''" and s = "''/quote]'' @ X" and f = f]
      quote_start_not_end [of prev X] by simp
qed

lemma quote_start_over_plain:
  assumes "plain A" and "\<And>prev. replace_all quote_start f prev X = R"
  shows "replace_all quote_start f prev (A @ X) = A @ R"
  by (rule replace_all_skip) (use assms plainD quote_start_miss in auto)

lemma nested_starts:
  assumes "plain A" "plain B" "plain C" "plain D" "plain E"
  shows "js_replace quote_start (\<lambda>m _. STX # m) (nested A B C D E) =
           A @ STX # ''[quote]'' @ B @ STX # ''[quote]'' @ C @ ''[/quote]'' @ D @ ''[/quote]'' @ E"
proof -
  let ?f = "\<lambda>m (_ :: (nat \<times> string) list). STX # m"
  have e: "replace_all quote_start ?f p E = E" for p
    by (rule replace_all_same) (use assms plainD quote_start_miss quote_start_nil in auto)
  have 1: "replace_all quote_start ?f p (''[/quote]'' @ E) = ''[/quote]'' @ E" for p
    by (rule quote_start_over_end) (rule e)
  have 2: "replace_all quote_start ?f p (D @ ''[/quote]'' @ E) = D @ ''[/quote]'' @ E" for p
    by (rule quote_start_over_plain [OF assms(4)]) (rule 1)
  have 3: "replace_all quote_start ?f p (''[/quote]'' @ D @ ''[/quote]'' @ E) = ''[/quote]'' @ D @ ''[/quote]'' @ E" for p
    by (rule quote_start_over_end) (rule 2)
  have 4: "replace_all quote_start ?f p (C @ ''[/quote]'' @ D @ ''[/quote]'' @ E) = C @ ''[/quote]'' @ D @ ''[/quote]'' @ E" for p
    by (rule quote_start_over_plain [OF assms(3)]) (rule 3)
  have 5: "replace_all quote_start ?f p (''[quote]'' @ C @ ''[/quote]'' @ D @ ''[/quote]'' @ E) =
           ?f ''[quote]'' [] @ C @ ''[/quote]'' @ D @ ''[/quote]'' @ E" for p
    by (rule quote_start_over_start) (rule 4)
  have 6: "replace_all quote_start ?f p (B @ ''[quote]'' @ C @ ''[/quote]'' @ D @ ''[/quote]'' @ E) =
           B @ ?f ''[quote]'' [] @ C @ ''[/quote]'' @ D @ ''[/quote]'' @ E" for p
    by (rule quote_start_over_plain [OF assms(2)]) (rule 5)
  have 7: "replace_all quote_start ?f p (''[quote]'' @ B @ ''[quote]'' @ C @ ''[/quote]'' @ D @ ''[/quote]'' @ E) =
           ?f ''[quote]'' [] @ B @ ?f ''[quote]'' [] @ C @ ''[/quote]'' @ D @ ''[/quote]'' @ E" for p
    by (rule quote_start_over_start) (rule 6)
  have 8: "replace_all quote_start ?f p (A @ ''[quote]'' @ B @ ''[quote]'' @ C @ ''[/quote]'' @ D @ ''[/quote]'' @ E) =
           A @ ?f ''[quote]'' [] @ B @ ?f ''[quote]'' [] @ C @ ''[/quote]'' @ D @ ''[/quote]'' @ E" for p
    by (rule quote_start_over_plain [OF assms(1)]) (rule 7)
  show ?thesis
    using 8 [of None] all_global by (simp add: js_replace_def nested_def)
qed


lemma quote_end_over_end:
  assumes "\<And>prev. replace_all quote_end f prev X = R"
  shows "replace_all quote_end f prev (''[/quote]'' @ X) = f ''[/quote]'' [] @ R"
  using replace_all_match [where re = quote_end and M = "''[/quote]''" and X = X and cs = "[]"
      and f = f and R = R and prev = prev] assms quote_end_hit
  by simp

lemma quote_end_over_start:
  assumes "\<And>prev. replace_all quote_end f prev X = R"
  shows "replace_all quote_end f prev (''[quote]'' @ X) = ''[quote]'' @ R"
proof -
  have "replace_all quote_end f p (''quote]'' @ X) = ''quote]'' @ R" for p
    by (rule replace_all_skip) (use assms quote_end_miss in auto)
  then show ?thesis
    using replace_all_miss [where re = quote_end and prev = prev and c = "CHR ''[''"
        and s = "''quote]'' @ X" and f = f]
      quote_end_not_start [of prev X] by simp
qed

lemma quote_end_over_plain:
  assumes "plain A" and "\<And>prev. replace_all quote_end f prev X = R"
  shows "replace_all quote_end f prev (A @ X) = A @ R"
  by (rule replace_all_skip) (use assms plainD quote_end_miss in auto)

lemma quote_end_over_stx:
  assumes "\<And>prev. replace_all quote_end f prev X = R"
  shows "replace_all quote_end f prev (STX # X) = STX # R"
  using replace_all_miss [where re = quote_end and prev = prev and c = STX and s = X and f = f]
    quote_end_miss [of STX prev X] special_neq assms by simp

lemma nested_ends:
  assumes "plain A" "plain B" "plain C" "plain D" "plain E"
  shows "js_replace quote_end (\<lambda>m _. m @ [ETX])
           (A @ STX # ''[quote]'' @ B @ STX # ''[quote]'' @ C @ ''[/quote]'' @ D @ ''[/quote]'' @ E) =
         A @ STX # ''[quote]'' @ B @ STX # ''[quote]'' @ C @ ''[/quote]'' @ ETX # D @ ''[/quote]'' @ ETX # E"
proof -
  let ?f = "\<lambda>m (_ :: (nat \<times> string) list). m @ [ETX]"
  have e: "replace_all quote_end ?f p E = E" for p
    by (rule replace_all_same) (use assms plainD quote_end_miss quote_end_nil in auto)
  have 1: "replace_all quote_end ?f p (''[/quote]'' @ E) = ?f ''[/quote]'' [] @ E" for p
    by (rule quote_end_over_end) (rule e)
  have 2: "replace_all quote_end ?f p (D @ ''[/quote]'' @ E) = D @ ?f ''[/quote]'' [] @ E" for p
    by (rule quote_end_over_plain [OF assms(4)]) (rule 1)
  have 3: "replace_all quote_end ?f p (''[/quote]'' @ D @ ''[/quote]'' @ E) =
           ?f ''[/quote]'' [] @ D @ ?f ''[/quote]'' [] @ E" for p
    by (rule quote_end_over_end) (rule 2)
  have 4: "replace_all quote_end ?f p (C @ ''[/quote]'' @ D @ ''[/quote]'' @ E) =
           C @ ?f ''[/quote]'' [] @ D @ ?f ''[/quote]'' [] @ E" for p
    by (rule quote_end_over_plain [OF assms(3)]) (rule 3)
  have 5: "replace_all quote_end ?f p (''[quote]'' @ C @ ''[/quote]'' @ D @ ''[/quote]'' @ E) =
           ''[quote]'' @ C @ ?f ''[/quote]'' [] @ D @ ?f ''[/quote]'' [] @ E" for p
    by (rule quote_end_over_start) (rule 4)
  have 6: "replace_all quote_end ?f p (STX # ''[quote]'' @ C @ ''[/quote]'' @ D @ ''[/quote]'' @ E) =
           STX # ''[quote]'' @ C @ ?f ''[/quote]'' [] @ D @ ?f ''[/quote]'' [] @ E" for p
    by (rule quote_end_over_stx) (rule 5)
  have 7: "replace_all quote_end ?f p (B @ STX # ''[quote]'' @ C @ ''[/quote]'' @ D @ ''[/quote]'' @ E) =
           B @ STX # ''[quote]'' @ C @ ?f ''[/quote]'' [] @ D @ ?f ''[/quote]'' [] @ E" for p
    by (rule quote_end_over_plain [OF assms(2)]) (rule 6)
  have 8: "replace_all quote_end ?f p (''[quote]'' @ B @ STX # ''[quote]'' @ C @ ''[/quote]'' @ D @ ''[/quote]'' @ E) =
           ''[quote]'' @ B @ STX # ''[quote]'' @ C @ ?f ''[/quote]'' [] @ D @ ?f ''[/quote]'' [] @ E" for p
    by (rule quote_end_over_start) (rule 7)
  have 9: "replace_all quote_end ?f p (STX # ''[quote]'' @ B @ STX # ''[quote]'' @ C @ ''[/quote]'' @ D @ ''[/quote]'' @ E) =
           STX # ''[quote]'' @ B @ STX # ''[quote]'' @ C @ ?f ''[/quote]'' [] @ D @ ?f ''[/quote]'' [] @ E" for p
    by (rule quote_end_over_stx) (rule 8)
  have 10: "replace_all quote_end ?f p (A @ STX # ''[quote]'' @ B @ STX # ''[quote]'' @ C @ ''[/quote]'' @ D @ ''[/quote]'' @ E) =
           A @ STX # ''[quote]'' @ B @ STX # ''[quote]'' @ C @ ?f ''[/quote]'' [] @ D @ ?f ''[/quote]'' [] @ E" for p
    by (rule quote_end_over_plain [OF assms(1)]) (rule 9)
  show ?thesis
    using 10 [of None] all_global by (simp add: js_replace_def)
qed

lemma nested_marked:
  assumes "plain A" "plain B" "plain C" "plain D" "plain E"
  shows "mark_quotes (nested A B C D E) =
         A @ STX # ''[quote]'' @ B @ STX # ''[quote]'' @ C @ ''[/quote]'' @ ETX # D @ ''[/quote]'' @ ETX # E"
  unfolding mark_quotes_def nested_unprotected [OF assms] nested_starts [OF assms]
  by (rule nested_ends [OF assms])

lemma plain_no_marks: "plain s \<Longrightarrow> \<forall>c \<in> set s. c \<noteq> STX \<and> c \<noteq> ETX"
  using plainD(5,6) by blast

lemma plain_no_stx: "plain s \<Longrightarrow> \<forall>c \<in> set s. c \<noteq> STX"
  using plainD(5) by blast

lemma plain_no_backtick: "plain s \<Longrightarrow> \<forall>c \<in> set s. c \<noteq> BACKTICK"
  using plainD(1) by blast

lemma block_over_clean:
  assumes "\<forall>c \<in> set U. c \<noteq> STX" and "\<And>p. replace_all quote_block f p X = R"
  shows "replace_all quote_block f prev (U @ X) = U @ R"
  by (rule replace_all_skip) (use assms quote_block_miss in auto)

lemma block_clean:
  assumes "\<forall>c \<in> set U. c \<noteq> STX"
  shows "replace_all quote_block f prev U = U"
  by (rule replace_all_same) (use assms quote_block_miss quote_block_nil in auto)

lemma block_over_open:
  assumes "\<forall>c \<in> set u. c \<noteq> STX \<and> c \<noteq> ETX" and "v = [] \<or> hd v = STX"
    and "\<And>p. replace_all quote_block f p v = R"
  shows "replace_all quote_block f prev (STX # u @ v) = STX # u @ R"
proof -
  have "replace_all quote_block f p (u @ v) = u @ R" for p
    by (rule block_over_clean) (use assms in auto)
  then show ?thesis
    using replace_all_miss [where re = quote_block and prev = prev and c = STX and s = "u @ v" and f = f]
      quote_block_open [OF assms(1,2), of prev] by simp
qed

lemma block_over_pair:
  assumes "\<forall>c \<in> set u. c \<noteq> STX \<and> c \<noteq> ETX"
    and "\<And>p. replace_all quote_block f p X = R"
  shows "replace_all quote_block f prev (STX # u @ ETX # X) = f (STX # u @ [ETX]) [] @ R"
  using replace_all_match [where re = quote_block and M = "STX # u @ [ETX]" and X = X and cs = "[]"
      and f = f and R = R and prev = prev] quote_block_hit [OF assms(1), of _ X] assms(2)
  by simp

lemma strip_step:
  assumes "js_replace quote_block (\<lambda>_ _. [SUB]) s = s'" and "s' \<noteq> s"
  shows "strip_quote_blocks s = strip_quote_blocks s'"
  using assms by (simp add: strip_quote_blocks.simps [of s])

lemma strip_stop:
  assumes "js_replace quote_block (\<lambda>_ _. [SUB]) s = s"
  shows "strip_quote_blocks s = s"
  using assms by (simp add: strip_quote_blocks.simps [of s])

lemma nested_stripped:
  assumes "plain A" "plain B" "plain C" "plain D" "plain E"
  shows "strip_quote_blocks
           (A @ STX # ''[quote]'' @ B @ STX # ''[quote]'' @ C @ ''[/quote]'' @ ETX # D @ ''[/quote]'' @ ETX # E) =
         A @ SUB # E"
proof -
  let ?f = "\<lambda>(_ :: string) (_ :: (nat \<times> string) list). [SUB]"
  let ?t0 = "A @ STX # ''[quote]'' @ B @ STX # ''[quote]'' @ C @ ''[/quote]'' @ ETX # D @ ''[/quote]'' @ ETX # E"
  let ?t1 = "A @ STX # ''[quote]'' @ B @ SUB # D @ ''[/quote]'' @ ETX # E"
  let ?t2 = "A @ SUB # E"
  have cA: "\<forall>c \<in> set A. c \<noteq> STX" and cE: "\<forall>c \<in> set E. c \<noteq> STX"
    using assms plain_no_stx by blast+
  have qB: "\<forall>c \<in> set (''[quote]'' @ B). c \<noteq> STX \<and> c \<noteq> ETX"
    using plain_no_marks [OF assms(2)] by (simp add: STX_def ETX_def)
  have qC: "\<forall>c \<in> set (''[quote]'' @ C @ ''[/quote]''). c \<noteq> STX \<and> c \<noteq> ETX"
    using plain_no_marks [OF assms(3)] by (simp add: STX_def ETX_def ball_Un)
  have dE: "\<forall>c \<in> set (D @ ''[/quote]'' @ ETX # E). c \<noteq> STX"
    using plain_no_stx [OF assms(4)] plain_no_stx [OF assms(5)] by (simp add: STX_def ETX_def ball_Un)
  have qBD: "\<forall>c \<in> set (''[quote]'' @ B @ SUB # D @ ''[/quote]''). c \<noteq> STX \<and> c \<noteq> ETX"
    using plain_no_marks [OF assms(2)] plain_no_marks [OF assms(4)]
    by (simp add: STX_def ETX_def SUB_def ball_Un)
  have pass1: "js_replace quote_block ?f ?t0 = ?t1"
  proof -
    have 1: "replace_all quote_block ?f p (D @ ''[/quote]'' @ ETX # E) = D @ ''[/quote]'' @ ETX # E" for p
      by (rule block_clean [OF dE])
    have 2: "replace_all quote_block ?f p (STX # (''[quote]'' @ C @ ''[/quote]'') @ ETX # (D @ ''[/quote]'' @ ETX # E)) =
             [SUB] @ D @ ''[/quote]'' @ ETX # E" for p
      by (rule block_over_pair [OF qC]) (rule 1)
    have 3: "replace_all quote_block ?f p
               (STX # (''[quote]'' @ B) @ (STX # (''[quote]'' @ C @ ''[/quote]'') @ ETX # (D @ ''[/quote]'' @ ETX # E))) =
             STX # (''[quote]'' @ B) @ [SUB] @ D @ ''[/quote]'' @ ETX # E" for p
      by (rule block_over_open [OF qB]) (simp, rule 2)
    have 4: "replace_all quote_block ?f p
               (A @ (STX # (''[quote]'' @ B) @ (STX # (''[quote]'' @ C @ ''[/quote]'') @ ETX # (D @ ''[/quote]'' @ ETX # E)))) =
             A @ STX # (''[quote]'' @ B) @ [SUB] @ D @ ''[/quote]'' @ ETX # E" for p
      by (rule block_over_clean [OF cA]) (rule 3)
    show ?thesis using 4 [of None] all_global by (simp add: js_replace_def)
  qed
  have pass2: "js_replace quote_block ?f ?t1 = ?t2"
  proof -
    have 1: "replace_all quote_block ?f p E = E" for p
      by (rule block_clean [OF cE])
    have 2: "replace_all quote_block ?f p (STX # (''[quote]'' @ B @ SUB # D @ ''[/quote]'') @ ETX # E) =
             [SUB] @ E" for p
      by (rule block_over_pair [OF qBD]) (rule 1)
    have 3: "replace_all quote_block ?f p (A @ (STX # (''[quote]'' @ B @ SUB # D @ ''[/quote]'') @ ETX # E)) =
             A @ [SUB] @ E" for p
      by (rule block_over_clean [OF cA]) (rule 2)
    show ?thesis using 3 [of None] all_global by (simp add: js_replace_def)
  qed
  have pass3: "js_replace quote_block ?f ?t2 = ?t2"
  proof -
    have "\<forall>c \<in> set ?t2. c \<noteq> STX" using cA cE special_neq by auto
    then show ?thesis using block_clean [of ?t2 ?f None] all_global by (simp add: js_replace_def)
  qed
  have "length ?t1 < length ?t0" by simp
  then have ne1: "?t1 \<noteq> ?t0" by (metis less_irrefl)
  have "length ?t2 < length ?t1" by simp
  then have ne2: "?t2 \<noteq> ?t1" by (metis less_irrefl)
  have "strip_quote_blocks ?t0 = strip_quote_blocks ?t1"
    by (rule strip_step [OF pass1 ne1])
  also have "\<dots> = strip_quote_blocks ?t2"
    by (rule strip_step [OF pass2 ne2])
  also have "\<dots> = ?t2"
    by (rule strip_stop [OF pass3])
  finally show ?thesis .
qed

lemma nested_finished:
  assumes "plain A" "plain E"
  shows "finish (A @ SUB # E) = A @ E"
proof -
  have "\<forall>c \<in> set (A @ SUB # E). c \<noteq> STX \<and> c \<noteq> BACKTICK"
    using plain_no_stx [OF assms(1)] plain_no_stx [OF assms(2)]
      plain_no_backtick [OF assms(1)] plain_no_backtick [OF assms(2)]
    by (simp add: STX_def SUB_def BACKTICK_def ball_Un)
  then have ch: "c \<in> set (A @ SUB # E) \<Longrightarrow> c \<noteq> STX \<and> c \<noteq> BACKTICK" for c
    by blast
  have "\<forall>c \<in> set (A @ E). c \<noteq> BACKTICK"
    using plain_no_backtick [OF assms(1)] plain_no_backtick [OF assms(2)] by (simp add: ball_Un)
  then have ch2: "c \<in> set (A @ E) \<Longrightarrow> c \<noteq> BACKTICK" for c
    by blast
  have 1: "js_replace quote_unbalanced f (A @ SUB # E) = A @ SUB # E" for f
    by (rule js_replace_same [OF all_global(9)]) (simp_all add: ch quote_unbalanced_miss quote_unbalanced_nil del: set_append)
  have 2: "js_replace fence_joined f (A @ SUB # E) = A @ SUB # E" for f
    by (rule js_replace_same [OF all_global(10)]) (simp_all add: ch fence_joined_miss fence_joined_nil del: set_append)
  have 3: "js_replace control_chars (\<lambda>_ _. []) (A @ SUB # E) = A @ E"
  proof -
    let ?f = "\<lambda>(_ :: string) (_ :: (nat \<times> string) list). ([] :: string)"
    have e: "replace_all control_chars ?f p E = E" for p
      by (rule replace_all_same) (use assms plainD control_miss control_nil in auto)
    have s: "replace_all control_chars ?f p ([SUB] @ E) = ?f [SUB] [] @ E" for p
      by (rule replace_all_match) (use e control_hit control_values in auto)
    have "replace_all control_chars ?f p (A @ [SUB] @ E) = A @ ?f [SUB] [] @ E" for p
      by (rule replace_all_skip) (use assms plainD control_miss s in auto)
    then show ?thesis using all_global by (simp add: js_replace_def)
  qed
  have 4: "js_replace fencedgreedy f (A @ E) = A @ E" for f
    by (rule js_replace_same [OF all_global(3)]) (simp_all add: ch2 fencedgreedy_miss fencedgreedy_nil del: set_append)
  have 5: "js_replace fencedlazy f (A @ E) = A @ E" for f
    by (rule js_replace_same [OF all_global(4)]) (simp_all add: ch2 fencedlazy_miss fencedlazy_nil del: set_append)
  show ?thesis
    unfolding finish_def by (simp only: 1 2 3 4 5)
qed


section \<open>The command patterns\<close>

lemma is_space_code:
  "is_space c \<longleftrightarrow> code_unit c \<in> {0x09, 0x0A, 0x0B, 0x0C, 0x0D, 0x20, 0xA0}"
  by (auto simp: is_space_def white_space_def code_unit_inj code_unit_def)

lemma in_class_space: "in_class ic False white_space x = is_space x"
proof (cases ic)
  case False
  then show ?thesis by (auto simp: in_class_def char_eq_def is_space_def list_ex_iff)
next
  case True
  have "to_upper a = to_upper x \<longleftrightarrow> a = x" if "is_space a" for a
    using that code_unit_less [of x]
    by (auto simp: is_space_code code_unit_inj [of "to_upper a"] code_unit_inj [of a] code_to_upper)
  then show ?thesis using True
    by (auto simp: in_class_def char_eq_def is_space_def list_ex_iff)
qed

lemma in_class_nonspace: "in_class ic True white_space x = (\<not> is_space x)"
  using in_class_space [of ic x] by (simp add: in_class_def)

lemma code_to_lower:
  "code_unit (to_lower c) =
     (if (0x41 \<le> code_unit c \<and> code_unit c \<le> 0x5A) \<or>
         (0xC0 \<le> code_unit c \<and> code_unit c \<le> 0xDE \<and> code_unit c \<noteq> 0xD7)
      then code_unit c + 32 else code_unit c)"
  using code_unit_less [of c] by (simp add: to_lower_def code_unit_char_of)

lemma to_lower_nonspace: "\<not> is_space c \<Longrightarrow> \<not> is_space (to_lower c)"
  by (auto simp: is_space_code code_to_lower split: if_splits)


text \<open>A pattern that begins with \<open>^\<close> and lacks the flag \<open>m\<close> matches at the start only.\<close>

lemma search_anchored:
  assumes "\<And>c s. match_here re (Some c) s = None"
  shows "search re (Some c) s = False"
  using assms by (induction s arbitrary: c) auto

lemma test_anchored:
  assumes "\<And>c s. match_here re (Some c) s = None"
  shows "js_test re s \<longleftrightarrow> match_here re None s \<noteq> None"
  using search_anchored [OF assms] by (cases s) (auto simp: js_test_def)

lemma short_command_anchored: "match_here short_command (Some c) s = None"
  by (simp add: match_here_def short_command_def seqs_def)

lemma runs_head:
  "\<exists>t. runs p u v cs = MState (if u = [] then p else Some (last u)) v cs # t"
proof (induction u arbitrary: p)
  case Nil
  show ?case by simp
next
  case (Cons a u)
  obtain t where "runs (Some a) u v cs = MState (if u = [] then Some a else Some (last u)) v cs # t"
    using Cons.IH by blast
  then show ?case by simp
qed

lemma runs_first:
  assumes "k (MState (if u = [] then p else Some (last u)) v cs) = x # xs"
  shows "\<exists>ys. concat (map k (runs p u v cs)) = x # ys"
proof -
  obtain t where "runs p u v cs = MState (if u = [] then p else Some (last u)) v cs # t"
    using runs_head by blast
  then show ?thesis using assms by simp
qed

text \<open>The end of a command word: white space, or the end of the line.\<close>

lemma word_end:
  assumes "v = [] \<or> is_space (hd v)"
  shows "\<exists>st sts. rx_match ic False (Seq (Grp 1 (Alt (Cls False white_space) Eol)) Eps) (MState p v cs) = st # sts"
  using assms by (cases v) (auto simp: one_char_Cons one_char_Nil in_class_space)

lemma nonspace_star:
  assumes "\<forall>c \<in> set u. \<not> is_space c" and "v = [] \<or> is_space (hd v)"
  shows "\<exists>st sts. rx_match ic False (Seq (Star (Cls True white_space))
            (Seq (Grp 1 (Alt (Cls False white_space) Eol)) Eps)) (MState p (u @ v) cs) = st # sts"
proof -
  have "rx_match ic False (Star (Cls True white_space)) (MState p (u @ v) cs) = runs p u v cs"
    by (rule star_runs) (use assms in \<open>auto simp: in_class_nonspace\<close>)
  moreover obtain st sts where
    "rx_match ic False (Seq (Grp 1 (Alt (Cls False white_space) Eol)) Eps)
       (MState (if u = [] then p else Some (last u)) v cs) = st # sts"
    using word_end [OF assms(2)] by blast
  ultimately show ?thesis
    using runs_first [of "rx_match ic False (Seq (Grp 1 (Alt (Cls False white_space) Eol)) Eps)" u p v cs st sts]
    by (simp only: rx_match.simps(7)) blast
qed

text \<open>Running a pattern one step at a time.\<close>

lemma concat_map_concat_map:
  "concat (map f (concat (map g xs))) = concat (map (\<lambda>x. concat (map f (g x))) xs)"
  by (induction xs) auto

lemma rx_match_Seq: "rx_match ic ml (Seq b c) = (\<lambda>x. concat (map (rx_match ic ml c) (rx_match ic ml b x)))"
  by (rule ext) simp

lemma seq_assoc: "rx_match ic ml (Seq (Seq a b) c) st = rx_match ic ml (Seq a (Seq b c)) st"
  by (simp only: rx_match.simps(7) rx_match_Seq concat_map_concat_map)

lemma short_list: "length w < 3 \<Longrightarrow> w = [] \<or> (\<exists>a. w = [a]) \<or> (\<exists>a b. w = [a, b])"
  by (auto simp: less_Suc_eq numeral_3_eq_3 length_Suc_conv)

lemma long_list: "3 \<le> length w \<Longrightarrow> \<exists>a b c u. w = a # b # c # u"
  by (cases w; cases "tl w"; cases "tl (tl w)") auto

lemma seq_eps: "rx_match ic ml (Seq a Eps) st = rx_match ic ml a st"
  by (simp add: rx_match_Eps)

lemma seq_bol:
  "rx_match ic False (Seq Bol r) (MState None s cs) = rx_match ic False r (MState None s cs)"
  "rx_match ic False (Seq Bol r) (MState (Some c) s cs) = []"
  by simp_all

lemma seq_chr:
  "rx_match ic ml (Seq (Chr a) r) (MState p (x # s) cs) =
     (if char_eq ic a x then rx_match ic ml r (MState (Some x) s cs) else [])"
  "rx_match ic ml (Seq (Chr a) r) (MState p [] cs) = []"
  by (simp_all add: one_char_Cons one_char_Nil)

lemma seq_cls:
  "rx_match ic ml (Seq (Cls neg cl) r) (MState p (x # s) cs) =
     (if in_class ic neg cl x then rx_match ic ml r (MState (Some x) s cs) else [])"
  "rx_match ic ml (Seq (Cls neg cl) r) (MState p [] cs) = []"
  by (simp_all add: one_char_Cons one_char_Nil)

lemmas steps = seq_assoc seq_bol seq_chr seq_cls

lemma short_command_test:
  assumes w: "\<forall>c \<in> set w. \<not> is_space c" and v: "v = [] \<or> is_space (hd v)"
  shows "js_test short_command (CHR ''!'' # w @ v) \<longleftrightarrow> 3 \<le> length w"
proof -
  have t: "js_test short_command s \<longleftrightarrow> match_here short_command None s \<noteq> None" for s
    by (rule test_anchored) (rule short_command_anchored)
  have short: "rx_match False False (pattern short_command) (MState None (CHR ''!'' # w @ v) []) = []"
    if lt: "length w < 3"
  proof -
    consider "w = []" | a where "w = [a]" | a b where "w = [a, b]"
      using short_list [OF lt] by blast
    then show ?thesis
      using v by cases
        (cases v; simp add: short_command_def seqs_def AtLeast3_def steps char_eq_def
           in_class_nonspace del: rx_match.simps)+
  qed
  have long: "\<exists>st sts. rx_match False False (pattern short_command) (MState None (CHR ''!'' # w @ v) []) = st # sts"
    if ge: "3 \<le> length w"
  proof -
    obtain a b c u where u: "w = a # b # c # u"
      using long_list [OF ge] by blast
    have "\<forall>c \<in> set u. \<not> is_space c" using w u by simp
    then show ?thesis
      using nonspace_star [OF _ v, of u False "Some c" "[]"] w u
      by (simp add: short_command_def seqs_def AtLeast3_def steps char_eq_def
           in_class_nonspace del: rx_match.simps)
  qed
  have flags: "ignoreCase short_command = False" "multiline short_command = False"
    by (simp_all add: short_command_def)
  show ?thesis
  proof (cases "3 \<le> length w")
    case True
    then show ?thesis using long t by (auto simp: match_here_def flags)
  next
    case False
    then have "length w < 3" by simp
    then show ?thesis using short t False by (simp add: match_here_def flags)
  qed
qed


text \<open>Splitting at white space.\<close>

lemma spaces_miss: "\<not> is_space c \<Longrightarrow> match_here spaces prev (c # s) = None"
  by (simp add: match_here_def spaces_def Plus_def one_char_Cons in_class_space)

lemma spaces_hit:
  assumes "is_space c" and "s = [] \<or> \<not> is_space (hd s)"
  shows "match_here spaces prev (c # s) = Some (1, [])"
proof -
  have "rx_match False False (Star (Cls False white_space)) (MState (Some c) ([] @ s) []) =
        runs (Some c) [] s []"
    by (rule star_runs) (use assms in \<open>auto simp: in_class_space\<close>)
  then show ?thesis
    using assms by (simp add: match_here_def spaces_def Plus_def one_char_Cons in_class_space
        del: rx_match.simps(9))
qed

lemma split_word:
  assumes "\<forall>c \<in> set u. \<not> is_space c"
  shows "split_from spaces field prev (u @ v) =
         split_from spaces (field @ u) (if u = [] then prev else Some (last u)) v"
  using assms
proof (induction u arbitrary: field prev)
  case Nil
  show ?case by simp
next
  case (Cons a u)
  then show ?case by (simp add: spaces_miss)
qed

lemma split_space:
  assumes "is_space c" and "s = [] \<or> \<not> is_space (hd s)" and "field \<noteq> []"
  shows "split_from spaces field prev (c # s) = field # split_from spaces [] (Some c) s"
  using assms by (simp add: spaces_hit)

lemma split_two_words:
  assumes "\<forall>c \<in> set u. \<not> is_space c" "u \<noteq> []" "\<forall>c \<in> set v. \<not> is_space c" "is_space c" "v \<noteq> []"
  shows "js_split spaces (u @ c # v) = [u, v]"
proof -
  have "split_from spaces [] None (u @ c # v) = split_from spaces u (Some (last u)) (c # v)"
    using split_word [OF assms(1), of "[]" None "c # v"] assms(2) by simp
  also have "\<dots> = u # split_from spaces [] (Some c) v"
    by (rule split_space) (use assms in \<open>auto simp: neq_Nil_conv\<close>)
  also have "split_from spaces [] (Some c) v = [v]"
    using split_word [OF assms(3), of "[]" "Some c" "[]"] by simp
  finally show ?thesis using assms(2) by (simp add: js_split_def)
qed


lemma is_space_range:
  "is_space c \<longleftrightarrow> (9 \<le> code_unit c \<and> code_unit c \<le> 13) \<or> code_unit c = 32 \<or> code_unit c = 160"
  unfolding is_space_code by auto

lemma name_ok_char: "name_ok c \<Longrightarrow> name_char c = Chr c"
proof -
  assume "name_ok c"
  then have "code_unit c \<noteq> 0x2E" unfolding name_ok_def by arith
  moreover have "code_unit CHR ''.'' = 0x2E" by (simp add: code_unit_def)
  ultimately have "c \<noteq> CHR ''.''" by auto
  then show ?thesis by (simp add: name_char_def)
qed

lemma name_ok_nonspace: "name_ok c \<Longrightarrow> \<not> is_space c"
  unfolding name_ok_def is_space_range by arith

lemma to_upper_space: "is_space x \<Longrightarrow> to_upper x = x"
  unfolding is_space_range code_unit_inj [of "to_upper x"] code_to_upper by (simp split: if_splits) arith

lemma to_upper_nonspace: "\<not> is_space a \<Longrightarrow> \<not> is_space (to_upper a)"
  unfolding is_space_range code_to_upper by (simp split: if_splits) arith

lemma char_eq_nonspace: "char_eq ic a x \<Longrightarrow> \<not> is_space a \<Longrightarrow> \<not> is_space x"
  using to_upper_space [of x] to_upper_nonspace [of a]
  by (cases ic) (auto simp: char_eq_def)

lemma char_eq_at: "char_eq ic CHR ''@'' c \<longleftrightarrow> c = CHR ''@''"
proof -
  have at: "code_unit CHR ''@'' = 0x40" by (simp add: code_unit_def)
  have "to_upper CHR ''@'' = CHR ''@''"
    unfolding code_unit_inj [of "to_upper CHR ''@''"] code_to_upper at by simp
  moreover have "to_upper c = CHR ''@'' \<longleftrightarrow> c = CHR ''@''"
    unfolding code_unit_inj [of _ "CHR ''@''"] code_to_upper at by (simp split: if_splits) arith
  ultimately show ?thesis by (auto simp: char_eq_def)
qed


lemma word_short:
  assumes w: "\<forall>c \<in> set w. \<not> is_space c" and v: "v = [] \<or> is_space (hd v)" and lt: "length w < 3"
  shows "rx_match ic False word_pattern (MState p (w @ v) cs) = []"
proof -
  consider "w = []" | a where "w = [a]" | a b where "w = [a, b]"
    using short_list [OF lt] by blast
  then show ?thesis
    using v w by cases
      (cases v; simp add: word_pattern_def seqs_def AtLeast3_def steps in_class_nonspace del: rx_match.simps)+
qed

lemma word_long:
  assumes w: "\<forall>c \<in> set w. \<not> is_space c" and v: "v = [] \<or> is_space (hd v)" and ge: "3 \<le> length w"
  shows "\<exists>st sts. rx_match ic False word_pattern (MState p (w @ v) cs) = st # sts"
proof -
  obtain a b c u where u: "w = a # b # c # u"
    using long_list [OF ge] by blast
  have "\<forall>c \<in> set u. \<not> is_space c" using w u by simp
  then show ?thesis
    using nonspace_star [OF _ v, of u ic "Some c" cs] w u
    by (simp add: word_pattern_def seqs_def AtLeast3_def steps in_class_nonspace del: rx_match.simps)
qed

lemma seqs_Cons: "seqs (r # rs) = Seq r (seqs rs)"
  by (simp add: seqs_def)

lemma seqs_append_Chr:
  assumes "list_all2 (char_eq ic) u m"
  shows "rx_match ic ml (seqs (map Chr u @ R)) (MState p (m @ s) cs) =
         rx_match ic ml (seqs R) (MState (if m = [] then p else Some (last m)) s cs)"
  using assms
proof (induction u arbitrary: m p)
  case Nil
  then show ?case by simp
next
  case (Cons a u)
  then obtain x m' where m: "m = x # m'" "char_eq ic a x" "list_all2 (char_eq ic) u m'"
    by (auto simp: list_all2_Cons1)
  show ?case
    using Cons.IH [OF m(3), of "Some x"] m(1,2)
    by (simp add: seqs_Cons seq_chr del: rx_match.simps)
qed

lemma seqs_append_Chr_fail:
  assumes "\<not> list_all2 (char_eq ic) u (take (length u) t)"
  shows "rx_match ic ml (seqs (map Chr u @ R)) (MState p t cs) = []"
  using assms
proof (induction u arbitrary: t p)
  case Nil
  then show ?case by simp
next
  case (Cons a u)
  show ?case
  proof (cases t)
    case Nil
    then show ?thesis by (simp add: seqs_Cons seq_chr del: rx_match.simps)
  next
    case (Cons x t')
    then show ?thesis
      using Cons.prems Cons.IH [of t' "Some x"]
      by (auto simp: seqs_Cons seq_chr simp del: rx_match.simps)
  qed
qed

lemma mention_pattern:
  assumes "\<forall>c \<in> set u. name_ok c"
  shows "pattern (prepareParser u) =
         Seq Bol (Seq (Chr CHR ''@'') (seqs (map Chr u @
           [Cls False white_space, AtLeast3 (Cls True white_space),
            Grp 1 (Alt (Cls False white_space) Eol)])))"
proof -
  have eq: "map name_char u = map Chr u" using assms name_ok_char by (induction u) auto
  show ?thesis unfolding prepareParser_def eq by (simp add: seqs_def)
qed

lemma mention_flags: "ignoreCase (prepareParser u) = True" "multiline (prepareParser u) = False"
  by (simp_all add: prepareParser_def)

lemma mention_anchored: "match_here (prepareParser u) (Some c) s = None"
  by (simp add: match_here_def prepareParser_def seqs_def)

lemma mention_test:
  assumes u: "\<forall>c \<in> set u. name_ok c" and m: "list_all2 (char_eq True) u m"
    and w: "\<forall>c \<in> set w. \<not> is_space c" and v: "v = [] \<or> is_space (hd v)"
  shows "js_test (prepareParser u) (CHR ''@'' # m @ CHR '' '' # w @ v) \<longleftrightarrow> 3 \<le> length w"
proof -
  have t: "js_test (prepareParser u) s \<longleftrightarrow> match_here (prepareParser u) None s \<noteq> None" for s
    by (rule test_anchored) (rule mention_anchored)
  have sp: "is_space CHR '' ''" by (simp add: is_space_def white_space_def)
  have tail: "rx_match True False
          (seqs [Cls False white_space, AtLeast3 (Cls True white_space), Grp 1 (Alt (Cls False white_space) Eol)])
          (MState q (CHR '' '' # w @ v) []) =
        rx_match True False word_pattern (MState (Some CHR '' '') (w @ v) [])" for q
    by (simp add: seqs_Cons word_pattern_def steps in_class_space sp del: rx_match.simps)
  have "rx_match True False (pattern (prepareParser u)) (MState None (CHR ''@'' # m @ CHR '' '' # w @ v) []) =
        rx_match True False word_pattern (MState (Some CHR '' '') (w @ v) [])"
    using seqs_append_Chr [OF m, of False _ "Some CHR ''@''" "CHR '' '' # w @ v" "[]"] tail
    by (simp add: mention_pattern [OF u] steps char_eq_at del: rx_match.simps)
  then show ?thesis
    using word_short [OF w v, of True "Some CHR '' ''" "[]"] word_long [OF w v, of True "Some CHR '' ''" "[]"]
    by (cases "3 \<le> length w") (auto simp: t match_here_def mention_flags)
qed

lemma split_word_space:
  assumes "\<forall>x \<in> set u. \<not> is_space x" "u \<noteq> []" "is_space c" "s = [] \<or> \<not> is_space (hd s)"
  shows "split_from spaces [] prev (u @ c # s) = u # split_from spaces [] (Some c) s"
proof -
  have "split_from spaces [] prev (u @ c # s) = split_from spaces u (Some (last u)) (c # s)"
    using split_word [OF assms(1), of "[]" prev "c # s"] assms(2) by simp
  also have "\<dots> = u # split_from spaces [] (Some c) s"
    by (rule split_space) (use assms in auto)
  finally show ?thesis .
qed

lemma split_last_word:
  assumes "\<forall>x \<in> set u. \<not> is_space x"
  shows "split_from spaces [] prev u = [u]"
  using split_word [OF assms, of "[]" prev "[]"] by simp

lemma split_three_words:
  assumes "\<forall>x \<in> set u. \<not> is_space x" "u \<noteq> []" "\<forall>x \<in> set w. \<not> is_space x" "w \<noteq> []"
    "\<forall>x \<in> set a. \<not> is_space x" "a \<noteq> []" "is_space c" "is_space d"
  shows "js_split spaces (u @ c # w @ d # a) = [u, w, a]"
proof -
  have "split_from spaces [] None (u @ c # w @ d # a) = u # split_from spaces [] (Some c) (w @ d # a)"
    by (rule split_word_space) (use assms in \<open>auto simp: neq_Nil_conv\<close>)
  also have "split_from spaces [] (Some c) (w @ d # a) = w # split_from spaces [] (Some d) a"
    by (rule split_word_space) (use assms in \<open>auto simp: neq_Nil_conv\<close>)
  also have "split_from spaces [] (Some d) a = [a]"
    by (rule split_last_word) (use assms in auto)
  finally show ?thesis using assms(2) by (simp add: js_split_def)
qed

text \<open>\<open>/\s+$/\<close> finds nothing in a string that ends in a character other than white space.\<close>

lemma runs_rest: "st \<in> set (runs p u v cs) \<Longrightarrow> v \<noteq> [] \<Longrightarrow> rest st \<noteq> []"
  by (induction u arbitrary: p) auto

lemma trailing_spaces_miss:
  assumes "\<not> is_space (last (c # t))"
  shows "match_here trailing_spaces prev (c # t) = None"
proof (cases "is_space c")
  case False
  then show ?thesis
    by (simp add: match_here_def trailing_spaces_def Plus_def steps in_class_space del: rx_match.simps)
next
  case True
  let ?sp = "takeWhile is_space t" and ?r = "dropWhile is_space t"
  have r: "?r \<noteq> []"
  proof
    assume "?r = []"
    then have "\<forall>x \<in> set t. is_space x" by (metis dropWhile_eq_Nil_conv)
    then have "is_space (last (c # t))" using True by (cases "t = []") auto
    then show False using assms by simp
  qed
  then have hd: "\<not> is_space (hd ?r)" by (metis hd_dropWhile)
  have "rx_match False False (Star (Cls False white_space)) (MState (Some c) (?sp @ ?r) []) =
        runs (Some c) ?sp ?r []"
    by (rule star_runs) (use hd in \<open>auto simp: in_class_space dest: set_takeWhileD\<close>)
  then have star: "rx_match False False (Star (Cls False white_space)) (MState (Some c) t []) =
        runs (Some c) ?sp ?r []"
    by simp
  have eq: "concat (map (rx_match False False Eol) (runs (Some c) ?sp ?r [])) = []"
    using runs_rest [OF _ r] by (auto split: list.splits)
  have "rx_match False False (Seq (Plus (Cls False white_space)) Eol) (MState prev (c # t) []) =
        concat (map (rx_match False False Eol)
                 (rx_match False False (Star (Cls False white_space)) (MState (Some c) t [])))"
    using True
    by (simp add: Plus_def steps in_class_space rx_match.simps(7) [of _ _ "Star _"] del: rx_match.simps)
  then have "rx_match False False (Seq (Plus (Cls False white_space)) Eol) (MState prev (c # t) []) = []"
    by (simp only: star eq)
  then show ?thesis
    by (simp add: match_here_def trailing_spaces_def del: rx_match.simps)
qed

lemma trailing_spaces_nil: "match_here trailing_spaces prev [] = None"
  by (simp add: match_here_def trailing_spaces_def Plus_def steps del: rx_match.simps)

lemma no_trailing_spaces:
  assumes "s = [] \<or> \<not> is_space (last s)"
  shows "replace_first trailing_spaces f prev s = s"
  using assms
proof (induction s arbitrary: prev)
  case Nil
  show ?case by (simp add: trailing_spaces_nil)
next
  case (Cons c t)
  then have "\<not> is_space (last (c # t))" by simp
  then have m: "match_here trailing_spaces prev (c # t) = None" by (rule trailing_spaces_miss)
  have "t = [] \<or> \<not> is_space (last t)" using Cons.prems by (cases "t = []") auto
  then show ?case using Cons.IH m by simp
qed

text \<open>The mention of a command parsed from a mention line is not empty.\<close>

lemma split_from_prefix: "\<exists>x fs. split_from re field prev s = (field @ x) # fs"
proof (induction re field prev s rule: split_from.induct)
  case (1 re field prev)
  show ?case by simp
next
  case (2 re field prev c t)
  show ?case
  proof (cases "match_here re prev (c # t)")
    case None
    then show ?thesis using 2(1) by auto
  next
    case (Some r)
    obtain n cs where r: "r = (n, cs)" by (cases r)
    show ?thesis
    proof (cases "n = 0 \<and> field = []")
      case True
      then show ?thesis using Some r 2(2) [OF Some r [symmetric]] by auto
    next
      case False
      then show ?thesis using Some r by auto
    qed
  qed
qed

lemma mention_starts:
  assumes "js_test (prepareParser u) s"
  shows "\<exists>t. s = CHR ''@'' # t"
proof -
  have "match_here (prepareParser u) None s \<noteq> None"
    using assms test_anchored [of "prepareParser u" s] mention_anchored by simp
  then show ?thesis
    by (cases s) (auto simp: match_here_def prepareParser_def seqs_def steps char_eq_at
          simp del: rx_match.simps split: if_splits)
qed

lemma mention_truthy:
  assumes "parseMentionCommand (Some (prepareParser u)) line = Returned (Some c)"
  shows "truthy (mention c)"
proof -
  from assms have test: "js_test (prepareParser u) line"
    by (auto simp: parseMentionCommand_def split: if_splits)
  then obtain t where line: "line = CHR ''@'' # t" using mention_starts by blast
  have "\<not> is_space CHR ''@''" by (simp add: is_space_def white_space_def)
  then have "js_split spaces line = split_from spaces [CHR ''@''] (Some CHR ''@'') t"
    using line by (simp add: js_split_def spaces_miss)
  then obtain x fs where "js_split spaces line = (CHR ''@'' # x) # fs"
    using split_from_prefix [of spaces "[CHR ''@'']" "Some CHR ''@''" t] by auto
  then show ?thesis
    using assms test by (auto simp: parseMentionCommand_def truthy_def split: list.splits)
qed

lemma short_no_mention:
  assumes "parseShortCommand line = Returned (Some c)"
  shows "\<not> truthy (mention c)"
  using assms by (auto simp: parseShortCommand_def truthy_def split: if_splits list.splits)

section \<open>The batches of readPosts\<close>

lemma queue_push_timings:
  "queue_push json_parse cfg (timings_task ctx topicId part) w =
     (Some (response_error (service w (served w)),
            parse_body json_parse (response_body (service w (served w)))),
      w\<lparr>served := Suc (served w), log := log w @ [Sent (timings_request cfg topicId part)]\<rparr>)"
  by (simp add: queue_push_def queueWorker_def timings_task_def timings_request_def truthy_def Let_def)

lemma readPosts_whilst_all:
  assumes "\<forall>k < length (slices ids). response_error (service w (served w + k)) = None"
  shows "readPosts_whilst json_parse cfg ctx topicId ids w =
           w\<lparr>served := served w + length (slices ids),
             log := log w @ map (\<lambda>part. Sent (timings_request cfg topicId part)) (slices ids)
                          @ [Completed None None]\<rparr>"
  using assms
proof (induction ids arbitrary: w rule: slices.induct)
  case (1 ids)
  show ?case
  proof (cases "ids = []")
    case True
    then show ?thesis
      by (simp add: readPosts_whilst.simps [of _ _ _ _ "[]"] slices.simps [of "[]"] complete_def)
  next
    case False
    let ?w1 = "w\<lparr>served := Suc (served w), log := log w @ [Sent (timings_request cfg topicId (take 200 ids))]\<rparr>"
    have sl: "slices ids = take 200 ids # slices (drop 200 ids)"
      using False by (simp add: slices.simps [of ids])
    have e0: "response_error (service w (served w)) = None"
      using "1.prems" sl by (metis add.right_neutral length_greater_0_conv list.distinct(1))
    have rest: "\<forall>k < length (slices (drop 200 ids)). response_error (service ?w1 (served ?w1 + k)) = None"
      using "1.prems" sl by (auto)
    have "readPosts_whilst json_parse cfg ctx topicId ids w =
          readPosts_whilst json_parse cfg ctx topicId (drop 200 ids) ?w1"
      using False e0 by (simp add: readPosts_whilst.simps [of _ _ _ _ ids] queue_push_timings)
    also have "\<dots> = ?w1\<lparr>served := served ?w1 + length (slices (drop 200 ids)),
             log := log ?w1 @ map (\<lambda>part. Sent (timings_request cfg topicId part)) (slices (drop 200 ids))
                          @ [Completed None None]\<rparr>"
      using "1.IH" [OF False rest] .
    finally show ?thesis by (simp add: sl)
  qed
qed


lemma readPosts_whilst_error:
  assumes "j < length (slices ids)"
    and "\<forall>k < j. response_error (service w (served w + k)) = None"
    and "response_error (service w (served w + j)) = Some e"
  shows "readPosts_whilst json_parse cfg ctx topicId ids w =
           w\<lparr>served := served w + Suc j,
             log := log w @ map (\<lambda>part. Sent (timings_request cfg topicId part)) (take (Suc j) (slices ids))
                          @ [Completed (Some e) None]\<rparr>"
  using assms
proof (induction ids arbitrary: w j rule: slices.induct)
  case (1 ids)
  have ne: "ids \<noteq> []" using "1.prems"(1) by (auto simp: slices.simps [of "[]"])
  let ?w1 = "w\<lparr>served := Suc (served w), log := log w @ [Sent (timings_request cfg topicId (take 200 ids))]\<rparr>"
  have sl: "slices ids = take 200 ids # slices (drop 200 ids)"
    using ne by (simp add: slices.simps [of ids])
  show ?case
  proof (cases j)
    case 0
    then have "response_error (service w (served w)) = Some e" using "1.prems"(3) by simp
    then show ?thesis using ne 0
      by (simp add: readPosts_whilst.simps [of _ _ _ _ ids] queue_push_timings sl complete_def)
  next
    case (Suc i)
    have e0: "response_error (service w (served w)) = None"
      using "1.prems"(2) Suc by (metis add.right_neutral zero_less_Suc)
    have a: "i < length (slices (drop 200 ids))" using "1.prems"(1) Suc sl by simp
    have b: "\<forall>k < i. response_error (service ?w1 (served ?w1 + k)) = None"
      using "1.prems"(2) Suc by auto
    have c: "response_error (service ?w1 (served ?w1 + i)) = Some e"
      using "1.prems"(3) Suc by simp
    have "readPosts_whilst json_parse cfg ctx topicId ids w =
          readPosts_whilst json_parse cfg ctx topicId (drop 200 ids) ?w1"
      using ne e0 by (simp add: readPosts_whilst.simps [of _ _ _ _ ids] queue_push_timings)
    also have "\<dots> = ?w1\<lparr>served := served ?w1 + Suc i,
             log := log ?w1 @ map (\<lambda>part. Sent (timings_request cfg topicId part)) (take (Suc i) (slices (drop 200 ids)))
                          @ [Completed (Some e) None]\<rparr>"
      using "1.IH" [OF ne a b c] .
    finally show ?thesis by (simp add: sl Suc)
  qed
qed

lemma slices_Nil: "slices [] = []"
  by (simp add: slices.simps [of "[]"])

lemma slices_Cons: "ids \<noteq> [] \<Longrightarrow> slices ids = take 200 ids # slices (drop 200 ids)"
  by (simp add: slices.simps [of ids])

lemma concat_slices: "concat (slices ids) = ids"
proof (induction ids rule: slices.induct)
  case (1 ids)
  then show ?case by (cases "ids = []") (simp_all add: slices_Nil slices_Cons)
qed

lemma slices_bounds: "part \<in> set (slices ids) \<Longrightarrow> 0 < length part \<and> length part \<le> 200"
proof (induction ids rule: slices.induct)
  case (1 ids)
  then show ?case by (cases "ids = []") (auto simp: slices_Nil slices_Cons)
qed

lemma slices_450:
  assumes "length ids = 450"
  shows "slices ids = [take 200 ids, take 200 (drop 200 ids), drop 400 ids]"
proof -
  have 1: "ids \<noteq> []" using assms by auto
  have 2: "drop 200 ids \<noteq> []" using assms by auto
  have 3: "drop 200 (drop 200 ids) \<noteq> []" using assms by auto
  have 4: "drop 200 (drop 200 (drop 200 ids)) = []" using assms by auto
  have 5: "take 200 (drop 400 ids) = drop 400 ids" using assms by auto
  have "slices ids = take 200 ids # take 200 (drop 200 ids) # take 200 (drop 200 (drop 200 ids))
          # slices (drop 200 (drop 200 (drop 200 ids)))"
    using 1 2 3 by (simp add: slices_Cons)
  then show ?thesis using 4 5 by (simp add: slices_Nil)
qed

section \<open>Example values\<close>

text \<open>A post, a configuration, and a service that answers every request (or none).\<close>

definition example_post :: post where
  "example_post =
     \<lparr>raw = Some ''A[quote]B[quote]C[/quote]D[/quote]E'', cleaned = None, username = ''accalia'',
      trust_level = 2, admin = True, moderator = True, staff = True, topic_id = 1000,
      topic_slug = ''the-topic'', post_number = 42, reply_to_post_number = None, url = None,
      reply_to = None\<rparr>"

definition unreachable :: "nat \<Rightarrow> response" where
  "unreachable k = \<lparr>response_error = Some (Error ''ETIMEDOUT''), response_body = None\<rparr>"

definition example_config :: config where
  "example_config = \<lparr>forum = ''https://forum.example'', core_username = ''BotName'',
                     core_password = ''secret'', owner = ''owner'', ignoreUsers = [''blakeyrat'']\<rparr>"

definition offline :: world where
  "offline = \<lparr>service = unreachable, served = 0, csrf_token = None, log = []\<rparr>"

definition reachable :: "nat \<Rightarrow> response" where
  "reachable k = \<lparr>response_error = None, response_body = Some []\<rparr>"

definition online :: world where
  "online = \<lparr>service = reachable, served = 0, csrf_token = None, log = []\<rparr>"

definition example_ids :: "nat list" where
  "example_ids = [1000 ..< 1450]"

text \<open>A quote block followed on its line by three backticks, then a fenced block
  around the line \<open>[quote]\<close>.\<close>

definition quote_before_fence :: string where
  "quote_before_fence =
     ''[quote]x[/quote]'' @ replicate 3 BACKTICK @ [LF] @
     replicate 3 BACKTICK @ [LF] @ ''[quote]'' @ [LF] @ replicate 3 BACKTICK @ [LF]"

section \<open>Properties of commands.js\<close>

text \<open>
  Claim C5.  The short form needs a command word of at least three characters.  For
  a word \<open>w\<close> and an argument \<open>a\<close> without white space, the line \<open>!w a\<close> is no command
  when \<open>w\<close> has fewer than three characters, and otherwise the command \<open>w\<close> in lower
  case with the arguments \<open>[a]\<close> and no mention: \<open>!ab foo\<close> is no command, \<open>!abc foo\<close> is
  the command \<open>abc\<close> with the arguments \<open>[foo]\<close>.
\<close>

theorem short_form_min_length:
  assumes "\<forall>c \<in> set w. \<not> is_space c" and "\<forall>c \<in> set a. \<not> is_space c" and "a \<noteq> []"
  shows "parseShortCommand (CHR ''!'' # w @ CHR '' '' # a) =
          (if length w < 3 then Returned None
           else Returned (Some \<lparr>input = CHR ''!'' # w @ CHR '' '' # a, command = toLowerCase w,
                                 args = [a], mention = None\<rparr>))"
proof -
  have sp: "is_space CHR '' ''" by (simp add: is_space_def white_space_def)
  have t: "js_test short_command (CHR ''!'' # w @ CHR '' '' # a) \<longleftrightarrow> 3 \<le> length w"
    by (rule short_command_test [OF assms(1)]) (simp add: sp)
  have "\<not> is_space CHR ''!''"
    by (simp add: is_space_def white_space_def)
  then have "js_split spaces ((CHR ''!'' # w) @ CHR '' '' # a) = [CHR ''!'' # w, a]"
    using assms sp by (intro split_two_words) auto
  then show ?thesis using t by (auto simp: parseShortCommand_def)
qed

theorem short_form_examples:
  "parseShortCommand ''!ab foo'' = Returned None \<and>
   parseShortCommand ''!abc foo'' =
     Returned (Some \<lparr>input = ''!abc foo'', command = ''abc'', args = [''foo''], mention = None\<rparr>)"
proof -
  have ns: "\<forall>c \<in> set ''ab''. \<not> is_space c" "\<forall>c \<in> set ''abc''. \<not> is_space c"
    "\<forall>c \<in> set ''foo''. \<not> is_space c"
    by (simp_all add: is_space_def white_space_def)
  have low: "toLowerCase ''abc'' = ''abc''" by code_simp
  show ?thesis
    using short_form_min_length [OF ns(1) ns(3)] short_form_min_length [OF ns(2) ns(3)] low
    by simp
qed

text \<open>
  Claim C4, amended.  The mention form, too, needs a command word of at least three
  characters.  For a bot name of letters, digits, \<open>_\<close> and \<open>-\<close>, written in the line in
  any letter case, and a word \<open>w\<close> and an argument \<open>a\<close> without white space, the line
  \<open>@BotName w a\<close> is no command when \<open>w\<close> has fewer than three characters (so
  \<open>@BotName do thing\<close> is none), and otherwise the command \<open>w\<close> in lower case with the
  arguments \<open>[a]\<close>, the mention as written, and the input \<open>!w a\<close> with \<open>w\<close> in lower
  case: \<open>@BotName doit thing\<close> gives the command \<open>doit\<close>, the arguments \<open>[thing]\<close> and
  the input \<open>!doit thing\<close>.
\<close>

theorem mention_form_general:
  assumes u: "\<forall>c \<in> set u. name_ok c" and m: "list_all2 (char_eq True) u m"
    and w: "\<forall>c \<in> set w. \<not> is_space c" and a: "\<forall>c \<in> set a. \<not> is_space c" "a \<noteq> []"
  shows "parseMentionCommand (Some (prepareParser u)) (CHR ''@'' # m @ CHR '' '' # w @ CHR '' '' # a) =
          (if length w < 3 then Returned None
           else Returned (Some \<lparr>input = CHR ''!'' # toLowerCase w @ CHR '' '' # a,
                                 command = toLowerCase w, args = [a],
                                 mention = Some (CHR ''@'' # m)\<rparr>))"
proof -
  have sp: "is_space CHR '' ''" and at: "\<not> is_space CHR ''@''"
    by (simp_all add: is_space_def white_space_def)
  have t: "js_test (prepareParser u) (CHR ''@'' # m @ CHR '' '' # w @ CHR '' '' # a) \<longleftrightarrow> 3 \<le> length w"
    by (rule mention_test [OF u m w]) (simp add: sp)
  show ?thesis
  proof (cases "length w < 3")
    case True
    then show ?thesis using t by (simp add: parseMentionCommand_def)
  next
    case False
    then have wne: "w \<noteq> []" by auto
    have mm: "\<forall>x \<in> set m. \<not> is_space x"
      using m u name_ok_nonspace char_eq_nonspace
      by (metis in_set_conv_nth list_all2_conv_all_nth)
    have split: "js_split spaces ((CHR ''@'' # m) @ CHR '' '' # w @ CHR '' '' # a) = [CHR ''@'' # m, w, a]"
      by (rule split_three_words) (use mm at w wne a sp in auto)
    have "\<not> is_space (last (CHR ''!'' # toLowerCase w @ CHR '' '' # a))"
      using a by (simp add: last_append)
    then have trim: "js_replace trailing_spaces f (CHR ''!'' # toLowerCase w @ CHR '' '' # a) =
          CHR ''!'' # toLowerCase w @ CHR '' '' # a" for f
      using no_trailing_spaces [of "CHR ''!'' # toLowerCase w @ CHR '' '' # a" f None]
      by (simp add: js_replace_def trailing_spaces_def del: replace_first.simps)
    show ?thesis
      using False t split trim by (simp add: parseMentionCommand_def del: replace_first.simps)
  qed
qed

theorem mention_form_examples:
  "parseMentionCommand (Some (prepareParser ''BotName'')) ''@BotName doit thing'' =
     Returned (Some \<lparr>input = ''!doit thing'', command = ''doit'', args = [''thing''],
                     mention = Some ''@BotName''\<rparr>) \<and>
   parseMentionCommand (Some (prepareParser ''BotName'')) ''@botname DoIt thing'' =
     Returned (Some \<lparr>input = ''!doit thing'', command = ''doit'', args = [''thing''],
                     mention = Some ''@botname''\<rparr>) \<and>
   parseMentionCommand (Some (prepareParser ''BotName'')) ''@BotName do thing'' = Returned None"
proof -
  have u: "\<forall>c \<in> set ''BotName''. name_ok c"
    by (simp add: name_ok_def code_unit_def)
  have m: "list_all2 (char_eq True) ''BotName'' ''BotName''" "list_all2 (char_eq True) ''BotName'' ''botname''"
    by code_simp+
  have ns: "\<forall>c \<in> set ''doit''. \<not> is_space c" "\<forall>c \<in> set ''DoIt''. \<not> is_space c"
    "\<forall>c \<in> set ''do''. \<not> is_space c" "\<forall>c \<in> set ''thing''. \<not> is_space c"
    by (simp_all add: is_space_def white_space_def)
  have low: "toLowerCase ''doit'' = ''doit''" "toLowerCase ''DoIt'' = ''doit''" by code_simp+
  show ?thesis
    using mention_form_general [OF u m(1) ns(1) ns(4)] mention_form_general [OF u m(2) ns(2) ns(4)]
      mention_form_general [OF u m(1) ns(3) ns(4)] low
    by simp
qed

text \<open>The line of the claim is not a command.\<close>

theorem mention_form_counterexample:
  "parseMentionCommand (Some (prepareParser ''BotName'')) ''@BotName do thing'' \<noteq>
     Returned (Some \<lparr>input = ''!do thing'', command = ''do'', args = [''thing''],
                     mention = Some ''@BotName''\<rparr>)"
  by code_simp

text \<open>
  Claim C10.  Called with a callback and with a post that is \<open>null\<close>, \<open>undefined\<close>, or has
  no raw text, \<open>parseCommands\<close> invokes the callback with no error and no commands
  and schedules no dispatch, whether or not the parser has been prepared; on such a
  post it throws exactly when the callback is missing.
\<close>

theorem parseCommands_without_text:
  assumes "p = None \<or> (\<exists>q. p = Some q \<and> (raw q = None \<or> raw q = Some []))"
  shows "parseCommands internals_mention p True =
           Returned \<lparr>callback_error = None, callback_commands = [], scheduled = []\<rparr>
         \<and> parseCommands internals_mention p False = Threw (Error ''callback must be supplied'')
         \<and> (parseCommands internals_mention p callback_is_function = Threw e \<longleftrightarrow>
              \<not> callback_is_function \<and> e = Error ''callback must be supplied'')"
  using assms by (auto simp: parseCommands_def split: option.splits)

theorem parseCommands_without_text_witness:
  "parseCommands None None True =
     Returned \<lparr>callback_error = None, callback_commands = [], scheduled = []\<rparr>
   \<and> parseCommands None None False = Threw (Error ''callback must be supplied'')
   \<and> (parseCommands None None False = Threw TypeError \<longleftrightarrow>
              \<not> False \<and> TypeError = Error ''callback must be supplied'')"
  using parseCommands_without_text [of None None False TypeError] by simp

text \<open>The only exceptions \<open>parseCommands\<close> can throw.\<close>

lemma parseShortCommand_threw: "parseShortCommand line = Threw e \<Longrightarrow> e = TypeError"
  by (auto simp: parseShortCommand_def split: if_splits list.splits)

lemma parseMentionCommand_threw: "parseMentionCommand m line = Threw e \<Longrightarrow> e = TypeError"
  by (auto simp: parseMentionCommand_def split: option.splits if_splits list.splits)

lemma parseLines_threw: "parseLines m lines = Threw e \<Longrightarrow> e = TypeError"
  by (induction lines arbitrary: e)
     (auto simp: parseLine_def split: outcome.splits list.splits if_splits
           dest: parseShortCommand_threw parseMentionCommand_threw)

lemma parseCommands_threw:
  "parseCommands m p cb = Threw e \<Longrightarrow> e = TypeError \<or> e = Error ''callback must be supplied''"
  by (auto simp: parseCommands_def split: if_splits option.splits outcome.splits dest: parseLines_threw)

text \<open>Before \<open>prepareParser\<close> has set the bus, the deferred callback ends in a
  \<open>TypeError\<close> and nothing is emitted.\<close>

lemma dispatch_without_events: "dispatch emit the_post c None = (Threw TypeError, None)"
  by (simp add: dispatch_def)

text \<open>
  Claim C9.  On the bus set by \<open>prepareParser\<close>, the dispatch of a command without a
  mention whose event \<open>command#<name>\<close> no listener handles calls \<open>emit\<close> for
  \<open>command#ERROR\<close>; if no listener handles that either, it calls \<open>emit\<close> once more,
  for \<open>error\<close> with the error "command ... was unhandled", and these three calls, in
  this order, are all the calls made on the bus.  Whatever \<open>emit\<close> does with the
  \<open>error\<close> event ends the deferred callback, and \<open>parseCommands\<close> never throws that
  error.  When a listener handles \<open>command#ERROR\<close> there are two calls and no
  \<open>error\<close>; for a command with a mention, or one whose event is handled, there is
  the one call for the command's event.  No dispatch raises \<open>error\<close> more than once.
  A command parsed from a short line has no mention, and one parsed from a mention
  line (for a bot name of letters, digits, \<open>_\<close> and \<open>-\<close>) has one.
\<close>

theorem dispatch_fallback:
  "(\<not> truthy (mention c) \<and>
    emit bus (''command#'' @ command c) (Command c the_post) = (Returned False, bus1) \<longrightarrow>
      (emit bus1 ''command#ERROR'' (Command c the_post) = (Returned False, bus2) \<and>
       emit bus2 ''error'' (Failure (unhandled c)) = (r, bus3) \<longrightarrow>
         dispatch (recording emit) the_post c (Some (bus, [])) =
           ((case r of Threw e \<Rightarrow> Threw e | Returned _ \<Rightarrow> Returned ()),
            Some (bus3, [(''command#'' @ command c, Command c the_post),
                         (''command#ERROR'', Command c the_post),
                         (''error'', Failure (unhandled c))]))) \<and>
      (emit bus1 ''command#ERROR'' (Command c the_post) = (Returned True, bus2) \<longrightarrow>
         dispatch (recording emit) the_post c (Some (bus, [])) =
           (Returned (), Some (bus2, [(''command#'' @ command c, Command c the_post),
                                      (''command#ERROR'', Command c the_post)]))))
   \<and> (truthy (mention c) \<and>
       emit bus (''command#'' @ command c) (Command c the_post) = (Returned handled, bus1) \<longrightarrow>
        dispatch (recording emit) the_post c (Some (bus, [])) =
          (Returned (), Some (bus1, [(''command#'' @ command c, Command c the_post)])))
   \<and> (emit bus (''command#'' @ command c) (Command c the_post) = (Returned True, bus1) \<longrightarrow>
        dispatch (recording emit) the_post c (Some (bus, [])) =
          (Returned (), Some (bus1, [(''command#'' @ command c, Command c the_post)])))
   \<and> (dispatch (recording emit) the_post c (Some (bus, [])) = (res, Some (bus4, calls)) \<longrightarrow>
        length (filter (\<lambda>ev. fst ev = ''error'') calls) \<le> 1)
   \<and> parseCommands internals_mention p callback_is_function \<noteq> Threw (unhandled c)
   \<and> (parseShortCommand line = Returned (Some c) \<longrightarrow> \<not> truthy (mention c))
   \<and> ((\<forall>ch \<in> set config_username. name_ok ch) \<and>
       parseMentionCommand (Some (prepareParser config_username)) line = Returned (Some c) \<longrightarrow>
        truthy (mention c))"
proof -
  have thrown: "parseCommands internals_mention p callback_is_function \<noteq> Threw (unhandled c)"
    using parseCommands_threw [of internals_mention p callback_is_function "unhandled c"]
    by (auto simp: unhandled_def)
  have short: "parseShortCommand line = Returned (Some c) \<longrightarrow> \<not> truthy (mention c)"
    using short_no_mention by blast
  have ment: "(\<forall>ch \<in> set config_username. name_ok ch) \<and>
       parseMentionCommand (Some (prepareParser config_username)) line = Returned (Some c) \<longrightarrow>
        truthy (mention c)"
    using mention_truthy by blast
  have once: "dispatch (recording emit) the_post c (Some (bus, [])) = (res, Some (bus4, calls)) \<longrightarrow>
        length (filter (\<lambda>ev. fst ev = ''error'') calls) \<le> 1"
    by (auto simp: dispatch_def recording_def split: prod.splits outcome.splits if_splits)
  have chain: "\<not> truthy (mention c) \<and>
    emit bus (''command#'' @ command c) (Command c the_post) = (Returned False, bus1) \<longrightarrow>
      (emit bus1 ''command#ERROR'' (Command c the_post) = (Returned False, bus2) \<and>
       emit bus2 ''error'' (Failure (unhandled c)) = (r, bus3) \<longrightarrow>
         dispatch (recording emit) the_post c (Some (bus, [])) =
           ((case r of Threw e \<Rightarrow> Threw e | Returned _ \<Rightarrow> Returned ()),
            Some (bus3, [(''command#'' @ command c, Command c the_post),
                         (''command#ERROR'', Command c the_post),
                         (''error'', Failure (unhandled c))]))) \<and>
      (emit bus1 ''command#ERROR'' (Command c the_post) = (Returned True, bus2) \<longrightarrow>
         dispatch (recording emit) the_post c (Some (bus, [])) =
           (Returned (), Some (bus2, [(''command#'' @ command c, Command c the_post),
                                      (''command#ERROR'', Command c the_post)])))"
    by (auto simp: dispatch_def recording_def split: outcome.splits)
  have with_mention: "truthy (mention c) \<and>
       emit bus (''command#'' @ command c) (Command c the_post) = (Returned handled, bus1) \<longrightarrow>
        dispatch (recording emit) the_post c (Some (bus, [])) =
          (Returned (), Some (bus1, [(''command#'' @ command c, Command c the_post)]))"
    by (simp add: dispatch_def recording_def)
  have handled: "emit bus (''command#'' @ command c) (Command c the_post) = (Returned True, bus1) \<longrightarrow>
        dispatch (recording emit) the_post c (Some (bus, [])) =
          (Returned (), Some (bus1, [(''command#'' @ command c, Command c the_post)]))"
    by (simp add: dispatch_def recording_def)
  show ?thesis
    using chain with_mention handled once thrown short ment by blast
qed

theorem dispatch_fallback_witness:
  "dispatch (recording (\<lambda>bus name pl. (Returned False, Suc bus))) example_post
          \<lparr>input = ''!abc foo'', command = ''abc'', args = [''foo''], mention = None\<rparr>
          (Some (0::nat, [])) =
     (Returned (),
      Some (3, [(''command#abc'', Command \<lparr>input = ''!abc foo'', command = ''abc'', args = [''foo''], mention = None\<rparr> example_post),
                (''command#ERROR'', Command \<lparr>input = ''!abc foo'', command = ''abc'', args = [''foo''], mention = None\<rparr> example_post),
                (''error'', Failure (Error ''command `abc` was unhandled.''))]))
   \<and> dispatch (recording (\<lambda>bus name pl. (Returned (name = ''command#ERROR''), Suc bus))) example_post
          \<lparr>input = ''!abc foo'', command = ''abc'', args = [''foo''], mention = None\<rparr>
          (Some (0::nat, [])) =
     (Returned (),
      Some (2, [(''command#abc'', Command \<lparr>input = ''!abc foo'', command = ''abc'', args = [''foo''], mention = None\<rparr> example_post),
                (''command#ERROR'', Command \<lparr>input = ''!abc foo'', command = ''abc'', args = [''foo''], mention = None\<rparr> example_post)]))
   \<and> dispatch (recording (\<lambda>bus name pl. (Returned False, Suc bus))) example_post
          \<lparr>input = ''!doit thing'', command = ''doit'', args = [''thing''], mention = Some ''@BotName''\<rparr>
          (Some (0::nat, [])) =
     (Returned (),
      Some (1, [(''command#doit'', Command \<lparr>input = ''!doit thing'', command = ''doit'', args = [''thing''], mention = Some ''@BotName''\<rparr> example_post)]))
   \<and> parseShortCommand ''!abc foo'' =
        Returned (Some \<lparr>input = ''!abc foo'', command = ''abc'', args = [''foo''], mention = None\<rparr>)
   \<and> parseMentionCommand (Some (prepareParser ''BotName'')) ''@BotName doit thing'' =
        Returned (Some \<lparr>input = ''!doit thing'', command = ''doit'', args = [''thing''], mention = Some ''@BotName''\<rparr>)
   \<and> \<not> truthy (mention \<lparr>input = ''!abc foo'', command = ''abc'', args = [''foo''], mention = None\<rparr>)
   \<and> truthy (mention \<lparr>input = ''!doit thing'', command = ''doit'', args = [''thing''], mention = Some ''@BotName''\<rparr>)"
proof -
  let ?short = "\<lparr>input = ''!abc foo'', command = ''abc'', args = [''foo''], mention = None\<rparr>"
  let ?ment = "\<lparr>input = ''!doit thing'', command = ''doit'', args = [''thing''], mention = Some ''@BotName''\<rparr>"
  have s: "parseShortCommand ''!abc foo'' = Returned (Some ?short)"
    by code_simp
  have m: "parseMentionCommand (Some (prepareParser ''BotName'')) ''@BotName doit thing'' =
        Returned (Some ?ment)"
    by code_simp
  have u: "\<forall>ch \<in> set ''BotName''. name_ok ch"
    by (simp add: name_ok_def code_unit_def)
  have t: "\<not> truthy (mention ?short)"
    by (simp add: truthy_def)
  show ?thesis
    using s m u t
      dispatch_fallback [where c = "?short" and emit = "\<lambda>bus name pl. (Returned False, Suc bus)"
        and bus = "0::nat" and the_post = example_post and ?bus1.0 = "Suc 0" and ?bus2.0 = "Suc (Suc 0)"
        and r = "Returned False" and ?bus3.0 = "Suc (Suc (Suc 0))" and line = "''!abc foo''"
        and config_username = "''BotName''"]
      dispatch_fallback [where c = "?short"
        and emit = "\<lambda>bus name pl. (Returned (name = ''command#ERROR''), Suc bus)"
        and bus = "0::nat" and the_post = example_post and ?bus1.0 = "Suc 0" and ?bus2.0 = "Suc (Suc 0)"]
      dispatch_fallback [where c = "?ment" and emit = "\<lambda>bus name pl. (Returned False, Suc bus)"
        and bus = "0::nat" and the_post = example_post and ?bus1.0 = "Suc 0" and handled = False
        and line = "''@BotName doit thing''" and config_username = "''BotName''"]
    by (simp add: unhandled_def numeral_3_eq_3 numeral_2_eq_2)
qed

section \<open>Properties of browser.js\<close>

text \<open>
  Claim C1, amended.  When \<open>A\<close>, \<open>B\<close>, \<open>C\<close>, \<open>D\<close> and \<open>E\<close> are plain text (no backtick,
  no opening bracket, no carriage return or other control character that the
  cleaning removes), the raw text \<open>A[quote]B[quote]C[/quote]D[/quote]E\<close> is cleaned to
  \<open>AE\<close>: the inner block goes first, then the outer one.  The raw text is kept.
\<close>

theorem nested_quotes_removed:
  assumes "plain A" "plain B" "plain C" "plain D" "plain E"
    and "raw p = Some (A @ ''[quote]'' @ B @ ''[quote]'' @ C @ ''[/quote]'' @ D @ ''[/quote]'' @ E)"
  shows "cleaned (cleanPostRaw p) = Some (A @ E) \<and> raw (cleanPostRaw p) = raw p"
  using assms(6) nested_marked [OF assms(1-5)] nested_stripped [OF assms(1-5)]
    nested_finished [OF assms(1,5)]
  by (simp add: cleanPostRaw_def nested_def)

theorem nested_quotes_removed_witness:
  "cleaned (cleanPostRaw example_post) = Some ''AE''"
  using nested_quotes_removed [of "''A''" "''B''" "''C''" "''D''" "''E''" example_post]
  by (simp add: plain_def plain_char_def is_control_def code_unit_def BACKTICK_def example_post_def)

text \<open>Between backticks the same tags are code, and nothing is removed.\<close>

theorem nested_quotes_in_code_counterexample:
  "cleaned (cleanPostRaw (example_post\<lparr>raw :=
       Some ([BACKTICK] @ ''[quote]B[quote]C[/quote]D[/quote]'' @ [BACKTICK])\<rparr>)) =
     Some ([BACKTICK] @ ''[quote]B[quote]C[/quote]D[/quote]'' @ [BACKTICK])
   \<and> [BACKTICK] @ ''[quote]B[quote]C[/quote]D[/quote]'' @ [BACKTICK] \<noteq> [BACKTICK] @ [BACKTICK]"
  by code_simp

text \<open>
  Claim C2.  A raw text in which a quote block is followed, on its line, by three
  backticks, and the next three lines are a fenced block around the line \<open>[quote]\<close>.
  The tag in the block is protected and is not read as a tag; but the removal of
  the quote block puts the backticks of the first line at its start, the final
  pass takes them and the opening fence for a block of their own, and the line
  \<open>[quote]\<close> and the closing fence stay in the cleaned text.
\<close>

theorem fenced_block_left_behind:
  "mark_quotes quote_before_fence =
     [STX] @ ''[quote]x[/quote]'' @ [ETX] @ replicate 3 BACKTICK @ [LF] @
     replicate 3 BACKTICK @ [LF] @ [CHR ''['', DLE] @ ''quote]'' @ [LF] @ replicate 3 BACKTICK @ [LF]
   \<and> cleaned (cleanPostRaw (example_post\<lparr>raw := Some quote_before_fence\<rparr>)) =
       Some (''[quote]'' @ [LF] @ replicate 3 BACKTICK @ [LF])
   \<and> raw (cleanPostRaw (example_post\<lparr>raw := Some quote_before_fence\<rparr>)) = Some quote_before_fence"
  by code_simp

text \<open>
  Claim C8.  \<open>setTrustLevel\<close> tries owner, admin, moderator, staff and the ignore list
  in this order and the first rule that matches decides: an author flagged admin and
  moderator gets the admin level (the owner's level when the author is the owner) and never
  the moderator level, and a post that matches no rule is returned unchanged.
\<close>

theorem setTrustLevel_precedence:
  "trust_level (setTrustLevel cfg p) =
     (if username p = owner cfg then 9
      else if admin p then 8
      else if moderator p then 7
      else if staff p then 6
      else if username p \<in> set (ignoreUsers cfg) then 0
      else trust_level p)
   \<and> (admin p \<and> moderator p \<and> username p \<noteq> owner cfg \<longrightarrow>
        trust_level (setTrustLevel cfg p) = tl_admin)
   \<and> (admin p \<and> moderator p \<longrightarrow> trust_level (setTrustLevel cfg p) \<noteq> tl_moderator)
   \<and> (username p \<noteq> owner cfg \<and> \<not> admin p \<and> \<not> moderator p \<and> \<not> staff p \<and>
        username p \<notin> set (ignoreUsers cfg) \<longrightarrow> setTrustLevel cfg p = p)"
  by (simp add: setTrustLevel_def tl_owner_def tl_admin_def tl_moderator_def tl_staff_def tl_ignored_def)

theorem setTrustLevel_precedence_witness:
  "trust_level (setTrustLevel \<lparr>forum = ''https://forum.example'', core_username = ''BotName'',
                     core_password = ''secret'', owner = ''owner'', ignoreUsers = [''accalia'']\<rparr>
                  example_post) = 8"
  using setTrustLevel_precedence [of "\<lparr>forum = ''https://forum.example'', core_username = ''BotName'',
                     core_password = ''secret'', owner = ''owner'', ignoreUsers = [''accalia'']\<rparr>" example_post]
  by (simp add: example_post_def)

text \<open>
  Claim C7.  When the CSRF request reports an error, \<open>login\<close> hands that error to the
  caller's callback and sends nothing else: the request of \<open>doLogin\<close> is never sent.
\<close>

theorem login_stops_after_csrf_error:
  assumes "response_error (service w (served w)) = Some e"
  shows "login json_parse cfg ctx True w =
           Returned (w\<lparr>served := Suc (served w),
                       log := log w @ [Sent \<lparr>request_url = Some (forum cfg @ ''/session/csrf.json''),
                                             request_method = ''GET'', request_form = None\<rparr>,
                                       Completed (Some e) None]\<rparr>)"
  using assms
  by (simp add: login_def getCSRF_def queue_push_def queueWorker_def csrf_task_def complete_def
        truthy_def Let_def)

theorem login_stops_after_csrf_error_witness:
  "login Map.empty example_config coreQueue True offline =
     Returned (offline\<lparr>served := 1,
                 log := [Sent \<lparr>request_url = Some ''https://forum.example/session/csrf.json'',
                               request_method = ''GET'', request_form = None\<rparr>,
                         Completed (Some (Error ''ETIMEDOUT'')) None]\<rparr>)"
  using login_stops_after_csrf_error [of offline "Error ''ETIMEDOUT''" Map.empty example_config coreQueue]
  by (simp add: offline_def unreachable_def example_config_def)

text \<open>
  Claim C3.  What \<open>queueWorker\<close> hands to the task's callback when the body is not
  JSON: the body as it was received, not \<open>undefined\<close>.
\<close>

theorem queueWorker_unparsable_body:
  assumes "json_parse s = None" and "task_callback t"
  shows "delivered (queueWorker json_parse cfg t \<lparr>response_error = e, response_body = Some s\<rparr>)
           = Some (e, Text s) \<and> Text s \<noteq> Undefined"
  using assms by (simp add: queueWorker_def parse_body_def)

theorem queueWorker_unparsable_body_witness:
  "delivered (queueWorker (\<lambda>s. if s = ''null'' then Some JNull else None) example_config
                (csrf_task 0) \<lparr>response_error = None, response_body = Some ''<html>''\<rparr>)
     = Some (None, Text ''<html>'')"
  using queueWorker_unparsable_body [of "\<lambda>s. if s = ''null'' then Some JNull else None" "''<html>''"
      "csrf_task 0" example_config None]
  by (simp add: csrf_task_def)

text \<open>
  Claim C6, amended.  As long as no batch reports a transport error, \<open>readPosts\<close>
  submits the slices of at most 200 identifiers one after the other until the list
  is exhausted, and then invokes the completion callback once, with no error; for
  450 identifiers these are three batches of 200, 200 and 50.  The first transport
  error ends the submission: the completion callback is invoked once, with that
  error, and the remaining batches are never sent.
\<close>

theorem readPosts_batches:
  "((\<forall>k < length (slices ids). response_error (service w (served w + k)) = None) \<longrightarrow>
     readPosts json_parse cfg ctx topicId (Many ids) True w =
       Returned (w\<lparr>served := served w + length (slices ids),
                   log := log w @ map (\<lambda>part. Sent (timings_request cfg topicId part)) (slices ids)
                                @ [Completed None None]\<rparr>))
   \<and> (j < length (slices ids) \<and> (\<forall>k < j. response_error (service w (served w + k)) = None) \<and>
       response_error (service w (served w + j)) = Some e \<longrightarrow>
     readPosts json_parse cfg ctx topicId (Many ids) True w =
       Returned (w\<lparr>served := served w + Suc j,
                   log := log w @ map (\<lambda>part. Sent (timings_request cfg topicId part)) (take (Suc j) (slices ids))
                                @ [Completed (Some e) None]\<rparr>))
   \<and> concat (slices ids) = ids
   \<and> (\<forall>part \<in> set (slices ids). 0 < length part \<and> length part \<le> 200)
   \<and> (length ids = 450 \<longrightarrow>
       slices ids = [take 200 ids, take 200 (drop 200 ids), drop 400 ids] \<and>
       map length (slices ids) = [200, 200, 50])"
proof (intro conjI impI)
  assume "\<forall>k < length (slices ids). response_error (service w (served w + k)) = None"
  then show "readPosts json_parse cfg ctx topicId (Many ids) True w =
       Returned (w\<lparr>served := served w + length (slices ids),
                   log := log w @ map (\<lambda>part. Sent (timings_request cfg topicId part)) (slices ids)
                                @ [Completed None None]\<rparr>)"
    by (simp add: readPosts_def readPosts_whilst_all)
next
  assume "j < length (slices ids) \<and> (\<forall>k < j. response_error (service w (served w + k)) = None) \<and>
       response_error (service w (served w + j)) = Some e"
  then show "readPosts json_parse cfg ctx topicId (Many ids) True w =
       Returned (w\<lparr>served := served w + Suc j,
                   log := log w @ map (\<lambda>part. Sent (timings_request cfg topicId part)) (take (Suc j) (slices ids))
                                @ [Completed (Some e) None]\<rparr>)"
    using readPosts_whilst_error [of j ids w e json_parse cfg ctx topicId]
    by (simp add: readPosts_def)
next
  show "concat (slices ids) = ids" by (rule concat_slices)
next
  show "\<forall>part \<in> set (slices ids). 0 < length part \<and> length part \<le> 200"
    using slices_bounds by blast
next
  assume "length ids = 450"
  then show "slices ids = [take 200 ids, take 200 (drop 200 ids), drop 400 ids]"
    by (rule slices_450)
next
  assume l: "length ids = 450"
  then show "map length (slices ids) = [200, 200, 50]"
    by (simp add: slices_450)
qed

theorem readPosts_batches_witness:
  "length example_ids = 450 \<and>
   readPosts Map.empty example_config coreQueue 7 (Many example_ids) True online =
     Returned (online\<lparr>served := 3,
                 log := [Sent (timings_request example_config 7 (take 200 example_ids)),
                         Sent (timings_request example_config 7 (take 200 (drop 200 example_ids))),
                         Sent (timings_request example_config 7 (drop 400 example_ids)),
                         Completed None None]\<rparr>)"
proof -
  have len: "length example_ids = 450" by (simp add: example_ids_def)
  note t = readPosts_batches [where ids = example_ids and w = online and json_parse = Map.empty
      and cfg = example_config and ctx = coreQueue and topicId = 7]
  have sl: "slices example_ids = [take 200 example_ids, take 200 (drop 200 example_ids), drop 400 example_ids]"
    using t len by blast
  have "\<forall>k < length (slices example_ids). response_error (service online (served online + k)) = None"
    by (simp add: online_def reachable_def)
  then have "readPosts Map.empty example_config coreQueue 7 (Many example_ids) True online =
       Returned (online\<lparr>served := served online + length (slices example_ids),
                   log := log online @ map (\<lambda>part. Sent (timings_request example_config 7 part)) (slices example_ids)
                                @ [Completed None None]\<rparr>)"
    using t by blast
  then show ?thesis using len by (simp add: sl online_def)
qed

text \<open>With the service unreachable, 450 identifiers make one batch, not three.\<close>

theorem readPosts_450_counterexample:
  "length example_ids = 450 \<and>
   readPosts Map.empty example_config coreQueue 7 (Many example_ids) True offline =
     Returned (offline\<lparr>served := 1,
                 log := [Sent (timings_request example_config 7 (take 200 example_ids)),
                         Completed (Some (Error ''ETIMEDOUT'')) None]\<rparr>)"
proof -
  have len: "length example_ids = 450" by (simp add: example_ids_def)
  then have ne: "example_ids \<noteq> []" by auto
  have "0 < length (slices example_ids)" using slices_Cons [OF ne] by simp
  moreover have "response_error (service offline (served offline + 0)) = Some (Error ''ETIMEDOUT'')"
    by (simp add: offline_def unreachable_def)
  ultimately have "readPosts_whilst Map.empty example_config coreQueue 7 example_ids offline =
     offline\<lparr>served := served offline + Suc 0,
        log := log offline @ map (\<lambda>part. Sent (timings_request example_config 7 part)) (take (Suc 0) (slices example_ids))
               @ [Completed (Some (Error ''ETIMEDOUT'')) None]\<rparr>"
    using readPosts_whilst_error [of 0 example_ids offline "Error ''ETIMEDOUT''"] by blast
  then show ?thesis
    using slices_Cons [OF ne] len by (simp add: readPosts_def offline_def)
qed

end
